theory Spec2Isabelle
  imports Main "HOL-Library.AList" "HOL-Library.Sublist"
begin

section \<open>The PGSL engine: data model\<close>

text \<open>
  The engine (class \<open>PGSLEngine\<close>) keeps three JavaScript objects used as dictionaries:
  the node repository (URI to node), the atom registry (\<open>String(value)\<close> to URI) and the
  fragment registry (\<open>JSON.stringify(content)\<close> to URI). They are modelled as association
  lists in insertion order, which is the order \<open>Object.values\<close> and \<open>Object.entries\<close>
  follow for the repository (its keys are minted URIs, never integer-like). Assignment
  \<open>obj[k] = v\<close> is \<open>AList.update\<close> (in place for a present key, appended otherwise), and
  \<open>delete obj[k]\<close> is \<open>AList.delete\<close>.

  Modelling decisions:
  \<^item> \<open>JSON.stringify\<close> is injective on arrays of strings, so the fragment registry is keyed
    by the content list itself.
  \<^item> A \<open>Value\<close> is a string or a number. The engine never computes with a number: it reads
    \<open>String(value)\<close> and stores the value untouched. A number is therefore represented by
    the string that \<open>Number::toString\<close> gives it (\<open>1\<close>, \<open>0.5\<close>, \<open>1e+21\<close>, \<open>NaN\<close>), which
    determines the number up to the sign of zero, and \<open>String\<close> is exact on every number.
  \<^item> The three dictionaries are plain object literals, so the read \<open>obj[key]\<close> also finds
    the members inherited from \<open>Object.prototype\<close> when \<open>key\<close> is one of
    \<open>objectPrototypeNames\<close> (\<open>constructor\<close>, \<open>toString\<close>, ...). The definitions below are the
    reads of own properties; they are the code's reads on every key that is not one of
    these names (\<open>readProperty\<close> is the read with the inherited members). A property that
    the code breaks at such a name is stated for the other keys only (\<open>ownKey\<close>), and what
    the code reads at the name is recorded next to it. Minted URIs, serialized contents
    and references (which contain \<open>://\<close> or start with \<open>did:\<close>) are never such names.
  \<^item> \<open>generateUUID\<close> and \<open>new Date().toISOString()\<close> read the host: the host is a pair
    of functions giving the UUID and the time stamp of the \<open>k\<close>-th node creation, and the
    engine counts the creations (\<open>minted\<close>).
  \<^item> Listeners are opaque callbacks; each has an identity, and the engine logs every
    invocation in order (\<open>notified\<close>). Listeners do not call back into the engine.
\<close>

type_synonym URI = string
type_synonym DID = string

datatype Value = VString string | VNumber string

datatype Node =
  AtomNode (node_id: URI) (rdf_value: Value) (attributedTo: DID) (generatedAtTime: string)
| FragmentNode (node_id: URI) nat nat (pgsl_content: "URI list")
    (pgsl_constituents: "(URI \<times> URI) option") (attributedTo: DID) (generatedAtTime: string)

text \<open>The \<open>@type\<close> array holds \<open>pgsl:Atom\<close> for an atom and \<open>pgsl:Fragment\<close> for a fragment.\<close>

fun isAtom :: "Node \<Rightarrow> bool" where
  "isAtom (AtomNode _ _ _ _) = True"
| "isAtom (FragmentNode _ _ _ _ _ _ _) = False"

fun isFragment :: "Node \<Rightarrow> bool" where
  "isFragment (AtomNode _ _ _ _) = False"
| "isFragment (FragmentNode _ _ _ _ _ _ _) = True"

text \<open>\<open>pgsl:level\<close> and \<open>pgsl:height\<close> are the literal 0 on an atom.\<close>

fun pgsl_level :: "Node \<Rightarrow> nat" where
  "pgsl_level (AtomNode _ _ _ _) = 0"
| "pgsl_level (FragmentNode _ l _ _ _ _ _) = l"

fun pgsl_height :: "Node \<Rightarrow> nat" where
  "pgsl_height (AtomNode _ _ _ _) = 0"
| "pgsl_height (FragmentNode _ _ h _ _ _ _) = h"

record PGSLState =
  atomRegistry :: "(string \<times> URI) list"
  fragmentRegistry :: "(URI list \<times> URI) list"
  nodeRepository :: "(URI \<times> Node) list"

record PGSLEngine =
  state :: PGSLState
  listeners :: "nat list"
  authority :: string
  agent :: DID
  notified :: "nat list"
  minted :: nat

record Host =
  randomUUID :: "nat \<Rightarrow> string"
  toISOString :: "nat \<Rightarrow> string"

datatype Error = EmptySequence

section \<open>JavaScript primitives\<close>

text \<open>
  \<open>String(value)\<close>: a string is itself, a number is its \<open>Number::toString\<close> form, which is
  how it is represented.
\<close>

fun String :: "Value \<Rightarrow> string" where
  "String (VString s) = s"
| "String (VNumber s) = s"

definition startsWith :: "string \<Rightarrow> string \<Rightarrow> bool" where
  "startsWith s p = prefix p s"

fun includes_js :: "string \<Rightarrow> string \<Rightarrow> bool" where
  "includes_js [] p = (p = [])"
| "includes_js (c # cs) p = (startsWith (c # cs) p \<or> includes_js cs p)"

text \<open>\<open>xs.slice(a, b)\<close> for \<open>0 \<le> a\<close>, \<open>0 \<le> b\<close>.\<close>

definition slice :: "'a list \<Rightarrow> nat \<Rightarrow> nat \<Rightarrow> 'a list" where
  "slice xs a b = take (b - a) (drop a xs)"

text \<open>\<open>parts.join(sep)\<close>.\<close>

fun join :: "string \<Rightarrow> string list \<Rightarrow> string" where
  "join sep [] = []"
| "join sep [x] = x"
| "join sep (x # y # ys) = x @ sep @ join sep (y # ys)"

text \<open>
  The names of the members every plain object inherits from \<open>Object.prototype\<close>. On any
  other key, \<open>obj[key]\<close> reads an own property or \<open>undefined\<close>.
\<close>

definition objectPrototypeNames :: "string list" where
  "objectPrototypeNames =
     [''constructor'', ''toString'', ''toLocaleString'', ''valueOf'', ''hasOwnProperty'',
      ''isPrototypeOf'', ''propertyIsEnumerable'', ''__proto__'', ''__defineGetter__'',
      ''__defineSetter__'', ''__lookupGetter__'', ''__lookupSetter__'']"

definition ownKey :: "string \<Rightarrow> bool" where
  "ownKey key \<longleftrightarrow> key \<notin> set objectPrototypeNames"

text \<open>
  The read \<open>obj[key]\<close> on one of the engine's dictionaries as JavaScript performs it: an own
  property, else a member inherited from \<open>Object.prototype\<close>, else \<open>undefined\<close>. An
  inherited member is a function or an object, never a node or an identifier, and it is
  truthy.
\<close>

datatype 'a Property = Own 'a | Inherited | Undefined

definition readProperty :: "(string \<times> 'a) list \<Rightarrow> string \<Rightarrow> 'a Property" where
  "readProperty obj key =
     (case map_of obj key of
        Some v \<Rightarrow> Own v
      | None \<Rightarrow> if ownKey key then Undefined else Inherited)"

text \<open>Truthiness of a looked-up string: \<open>undefined\<close> and the empty string are falsy.\<close>

fun truthy :: "string option \<Rightarrow> bool" where
  "truthy None = False"
| "truthy (Some s) = (s \<noteq> [])"

section \<open>The engine\<close>

definition constructor :: "PGSLEngine" where
  "constructor =
     \<lparr> state = \<lparr> atomRegistry = [], fragmentRegistry = [], nodeRepository = [] \<rparr>,
       listeners = [],
       authority = ''http://localhost:3000'',
       agent = ''did:web:localhost:user:default'',
       notified = [],
       minted = 0 \<rparr>"

text \<open>\<open>authority.replace(/\/$/, '')\<close> removes one trailing slash.\<close>

definition setFederationConfig :: "PGSLEngine \<Rightarrow> string \<Rightarrow> DID \<Rightarrow> PGSLEngine" where
  "setFederationConfig e auth ag =
     e\<lparr> authority := (if auth \<noteq> [] \<and> last auth = CHR ''/'' then butlast auth else auth),
        agent := ag \<rparr>"

definition subscribe :: "PGSLEngine \<Rightarrow> nat \<Rightarrow> PGSLEngine" where
  "subscribe e listener = e\<lparr> listeners := listeners e @ [listener] \<rparr>"

definition unsubscribe :: "PGSLEngine \<Rightarrow> nat \<Rightarrow> PGSLEngine" where
  "unsubscribe e listener = e\<lparr> listeners := filter (\<lambda>l. l \<noteq> listener) (listeners e) \<rparr>"

definition notify :: "PGSLEngine \<Rightarrow> PGSLEngine" where
  "notify e = e\<lparr> notified := notified e @ listeners e \<rparr>"

definition getAllNodes :: "PGSLEngine \<Rightarrow> Node list" where
  "getAllNodes e = map snd (nodeRepository (state e))"

definition getNode :: "PGSLEngine \<Rightarrow> URI \<Rightarrow> Node option" where
  "getNode e uri = map_of (nodeRepository (state e)) uri"

definition getFragmentUri :: "PGSLEngine \<Rightarrow> URI list \<Rightarrow> URI option" where
  "getFragmentUri e content = map_of (fragmentRegistry (state e)) content"

definition reset :: "PGSLEngine \<Rightarrow> PGSLEngine" where
  "reset e =
     notify (e\<lparr> state := \<lparr> atomRegistry = [], fragmentRegistry = [], nodeRepository = [] \<rparr> \<rparr>)"

text \<open>
  The two clean-up loops of \<open>deleteNode\<close> run over a snapshot of the entries and delete the
  key of every entry whose value is the URI.
\<close>

definition purge :: "URI \<Rightarrow> ('k \<times> URI) list \<Rightarrow> ('k \<times> URI) list" where
  "purge uri reg = fold (\<lambda>(key, val) r. if val = uri then AList.delete key r else r) reg reg"

definition deleteNode :: "PGSLEngine \<Rightarrow> URI \<Rightarrow> PGSLEngine" where
  "deleteNode e uri =
     notify (e\<lparr> state :=
       \<lparr> atomRegistry = purge uri (atomRegistry (state e)),
         fragmentRegistry = purge uri (fragmentRegistry (state e)),
         nodeRepository = AList.delete uri (nodeRepository (state e)) \<rparr> \<rparr>)"

definition mintURI :: "Host \<Rightarrow> PGSLEngine \<Rightarrow> string \<Rightarrow> URI \<times> PGSLEngine" where
  "mintURI h e ty =
     (authority e @ ''/'' @ ty @ ''/'' @ randomUUID h (minted e), e\<lparr> minted := Suc (minted e) \<rparr>)"

definition putNode :: "URI \<Rightarrow> Node \<Rightarrow> PGSLEngine \<Rightarrow> PGSLEngine" where
  "putNode uri node e =
     e\<lparr> state := (state e)\<lparr> nodeRepository := AList.update uri node (nodeRepository (state e)) \<rparr> \<rparr>"

definition putAtomKey :: "string \<Rightarrow> URI \<Rightarrow> PGSLEngine \<Rightarrow> PGSLEngine" where
  "putAtomKey key uri e =
     e\<lparr> state := (state e)\<lparr> atomRegistry := AList.update key uri (atomRegistry (state e)) \<rparr> \<rparr>"

definition putFragmentKey :: "URI list \<Rightarrow> URI \<Rightarrow> PGSLEngine \<Rightarrow> PGSLEngine" where
  "putFragmentKey key uri e =
     e\<lparr> state := (state e)\<lparr> fragmentRegistry := AList.update key uri (fragmentRegistry (state e)) \<rparr> \<rparr>"

subsection \<open>Level 0: atoms\<close>

definition getCanonicalAtom :: "Host \<Rightarrow> PGSLEngine \<Rightarrow> Value \<Rightarrow> URI \<times> PGSLEngine" where
  "getCanonicalAtom h e v =
     (let stringKey = String v;
          cached = map_of (atomRegistry (state e)) stringKey
      in if truthy cached then (the cached, e)
         else
           let (newUri, e1) = mintURI h e ''atoms'';
               atomNode = AtomNode newUri v (agent e) (toISOString h (minted e))
           in (newUri, notify (putAtomKey stringKey newUri (putNode newUri atomNode e1))))"

subsection \<open>Level 1 and above: fragments\<close>

text \<open>The height a referenced node contributes: 0 when it is not found locally.\<close>

definition heightOf :: "PGSLEngine \<Rightarrow> URI \<Rightarrow> nat" where
  "heightOf e uri = (case getNode e uri of None \<Rightarrow> 0 | Some n \<Rightarrow> pgsl_height n)"

text \<open>\<open>content[0]\<close>, which on an empty array is \<open>undefined\<close> and then names the key \<open>undefined\<close>.\<close>

definition firstContent :: "URI list \<Rightarrow> URI" where
  "firstContent content = (case content of [] \<Rightarrow> ''undefined'' | c # _ \<Rightarrow> c)"

definition getCanonicalFragment ::
    "Host \<Rightarrow> PGSLEngine \<Rightarrow> URI list \<Rightarrow> (URI \<times> URI) option \<Rightarrow> URI \<times> PGSLEngine" where
  "getCanonicalFragment h e content constituents =
     (let cached = map_of (fragmentRegistry (state e)) content
      in if truthy cached then (the cached, e)
         else
           let (newUri, e1) = mintURI h e ''fragments'';
               level = length content;
               height =
                 (case constituents of
                    Some (c1, c2) \<Rightarrow> max (heightOf e1 c1) (heightOf e1 c2) + 1
                  | None \<Rightarrow> heightOf e1 (firstContent content) + 1);
               fragmentNode = FragmentNode newUri level height content constituents
                                (agent e) (toISOString h (minted e))
           in (newUri, putFragmentKey content newUri (putNode newUri fragmentNode e1)))"

subsection \<open>Core operation: \<open>ingestSequence\<close>\<close>

definition isURI :: "string \<Rightarrow> bool" where
  "isURI strItem = (includes_js strItem ''://'' \<or> startsWith strItem ''did:'')"

text \<open>Step 1, \<open>items.map\<close>: references pass through, values become atoms.\<close>

fun normalizeItems :: "Host \<Rightarrow> PGSLEngine \<Rightarrow> Value list \<Rightarrow> URI list \<times> PGSLEngine" where
  "normalizeItems h e [] = ([], e)"
| "normalizeItems h e (item # rest) =
     (let strItem = String item;
          (u, e1) = (if isURI strItem then (strItem, e) else getCanonicalAtom h e item);
          (us, e2) = normalizeItems h e1 rest
      in (u # us, e2))"

text \<open>Step 2, \<open>baseUris.map\<close>: one wrapper per base URI.\<close>

fun wrapAll :: "Host \<Rightarrow> PGSLEngine \<Rightarrow> URI list \<Rightarrow> URI list \<times> PGSLEngine" where
  "wrapAll h e [] = ([], e)"
| "wrapAll h e (baseUri # rest) =
     (let (w, e1) = getCanonicalFragment h e [baseUri] None;
          (ws, e2) = wrapAll h e1 rest
      in (w # ws, e2))"

text \<open>
  Step 3: the body of the inner loop at length \<open>len\<close> and offset \<open>i\<close>, on the pair of
  \<open>topFragmentUri\<close> and the engine; then the two loops.
\<close>

definition buildStep ::
    "Host \<Rightarrow> URI list \<Rightarrow> nat \<Rightarrow> nat \<Rightarrow> nat \<Rightarrow> URI \<times> PGSLEngine \<Rightarrow> URI \<times> PGSLEngine" where
  "buildStep h baseUris N len i s =
     (let (topFragmentUri, e) = s;
          currentContent = slice baseUris i (i + len);
          leftContent = slice baseUris i (i + len - 1);
          rightContent = slice baseUris (i + 1) (i + len);
          leftUri = map_of (fragmentRegistry (state e)) leftContent;
          rightUri = map_of (fragmentRegistry (state e)) rightContent
      in if \<not> truthy leftUri \<or> \<not> truthy rightUri then (topFragmentUri, e)
         else
           let (fragmentUri, e1) =
                 getCanonicalFragment h e currentContent (Some (the leftUri, the rightUri))
           in (if len = N then fragmentUri else topFragmentUri, e1))"

definition buildLevel ::
    "Host \<Rightarrow> URI list \<Rightarrow> nat \<Rightarrow> nat \<Rightarrow> URI \<times> PGSLEngine \<Rightarrow> URI \<times> PGSLEngine" where
  "buildLevel h baseUris N len s = fold (buildStep h baseUris N len) [0..<Suc (N - len)] s"

definition buildLattice ::
    "Host \<Rightarrow> URI list \<Rightarrow> nat \<Rightarrow> URI \<times> PGSLEngine \<Rightarrow> URI \<times> PGSLEngine" where
  "buildLattice h baseUris N s = fold (buildLevel h baseUris N) [2..<Suc N] s"

definition ingestSequence :: "Host \<Rightarrow> PGSLEngine \<Rightarrow> Value list \<Rightarrow> (Error + URI) \<times> PGSLEngine" where
  "ingestSequence h e items =
     (if length items = 0 then (Inl EmptySequence, e)
      else
        let (baseUris, e1) = normalizeItems h e items;
            (level1Fragments, e2) = wrapAll h e1 baseUris
        in if length level1Fragments = 1 then (Inr (level1Fragments ! 0), notify e2)
           else
             let N = length baseUris;
                 (topFragmentUri, e3) = buildLattice h baseUris N (level1Fragments ! 0, e2)
             in (Inr topFragmentUri, notify e3))"

subsection \<open>Topology queries\<close>

definition promoteToStructural :: "PGSLEngine \<Rightarrow> URI \<Rightarrow> URI" where
  "promoteToStructural e uri =
     (case getNode e uri of
        Some node \<Rightarrow>
          if isAtom node then
            (let wrapper = getFragmentUri e [uri] in if truthy wrapper then the wrapper else uri)
          else uri
      | None \<Rightarrow> uri)"

definition demoteToAtom :: "PGSLEngine \<Rightarrow> URI \<Rightarrow> URI" where
  "demoteToAtom e uri =
     (case getNode e uri of
        Some node \<Rightarrow>
          if isFragment node \<and> pgsl_level node = 1 \<and> length (pgsl_content node) = 1
          then pgsl_content node ! 0 else uri
      | None \<Rightarrow> uri)"

text \<open>The scan of \<open>findParentNode\<close>, returning at the first match.\<close>

fun scanParent :: "URI \<Rightarrow> URI \<Rightarrow> Node list \<Rightarrow> URI option" where
  "scanParent safeLeft safeRight [] = None"
| "scanParent safeLeft safeRight (node # nodes) =
     (if isFragment node \<and> pgsl_constituents node = Some (safeLeft, safeRight)
      then Some (node_id node) else scanParent safeLeft safeRight nodes)"

definition findParentNode :: "PGSLEngine \<Rightarrow> URI \<Rightarrow> URI \<Rightarrow> URI option" where
  "findParentNode e leftUri rightUri =
     scanParent (promoteToStructural e leftUri) (promoteToStructural e rightUri) (getAllNodes e)"

datatype Direction = DirLeft | DirRight

text \<open>
  The scan of \<open>findNeighbors\<close>; a result \<open>{neighbor, pair}\<close> is the pair \<open>(neighbor, pair)\<close>.
  An empty \<open>rawNeighbor\<close> is falsy and pushes nothing.
\<close>

fun scanNeighbors :: "PGSLEngine \<Rightarrow> URI \<Rightarrow> Direction \<Rightarrow> Node list \<Rightarrow> (URI \<times> URI) list" where
  "scanNeighbors e effectiveTarget direction [] = []"
| "scanNeighbors e effectiveTarget direction (node # nodes) =
     (let rawNeighbor =
            (if isFragment node then
               (case pgsl_constituents node of
                  Some (c0, c1) \<Rightarrow>
                    if direction = DirLeft \<and> c1 = effectiveTarget then Some c0
                    else if direction = DirRight \<and> c0 = effectiveTarget then Some c1
                    else None
                | None \<Rightarrow> None)
             else None)
      in (if truthy rawNeighbor then [(demoteToAtom e (the rawNeighbor), node_id node)] else [])
         @ scanNeighbors e effectiveTarget direction nodes)"

definition findNeighbors :: "PGSLEngine \<Rightarrow> URI \<Rightarrow> Direction \<Rightarrow> (URI \<times> URI) list" where
  "findNeighbors e targetUri direction =
     scanNeighbors e (promoteToStructural e targetUri) direction (getAllNodes e)"

subsection \<open>String resolver\<close>

text \<open>
  \<open>resolveContentString\<close> recurses through \<open>pgsl:content\<close> with no bound of its own; the
  first argument is the recursion depth granted, and \<open>None\<close> means the depth ran out.
\<close>

fun resolveContentString :: "nat \<Rightarrow> PGSLEngine \<Rightarrow> URI \<Rightarrow> string option" where
  "resolveContentString 0 e uri = None"
| "resolveContentString (Suc d) e uri =
     (case getNode e uri of
        None \<Rightarrow> Some ''<?>''
      | Some node \<Rightarrow>
          if isAtom node then Some (String (rdf_value node))
          else
            let content = pgsl_content node
            in if length content = 0 then Some ''()''
               else if length content = 1 then resolveContentString d e (content ! 0)
               else map_option (\<lambda>inner. ''('' @ join '' '' inner @ '')'')
                      (those (map (resolveContentString d e) content)))"


section \<open>Auxiliary notions for the properties\<close>

text \<open>A host whose \<open>k\<close>-th UUID is a run of \<open>k + 1\<close> letters: injective and free of slashes.\<close>

definition demoHost :: Host where
  "demoHost =
     \<lparr> randomUUID = (\<lambda>k. replicate (Suc k) CHR ''u''),
       toISOString = (\<lambda>k. replicate (Suc k) CHR ''t'') \<rparr>"

text \<open>
  \<open>grows e e'\<close>: every registry key that is truthy in \<open>e\<close> has the same value in \<open>e'\<close>.
\<close>

definition grows :: "PGSLEngine \<Rightarrow> PGSLEngine \<Rightarrow> bool" where
  "grows e e' \<longleftrightarrow>
     (\<forall>k. truthy (map_of (atomRegistry (state e)) k) \<longrightarrow>
          map_of (atomRegistry (state e')) k = map_of (atomRegistry (state e)) k)
   \<and> (\<forall>c. truthy (map_of (fragmentRegistry (state e)) c) \<longrightarrow>
          map_of (fragmentRegistry (state e')) c = map_of (fragmentRegistry (state e)) c)"

text \<open>The base URI that step 1 of \<open>ingestSequence\<close> yields for an item already registered.\<close>

definition baseOf :: "PGSLEngine \<Rightarrow> Value \<Rightarrow> URI" where
  "baseOf e item =
     (if isURI (String item) then String item
      else the (map_of (atomRegistry (state e)) (String item)))"

text \<open>
  \<open>completeUpTo e us L\<close>: every contiguous slice of \<open>us\<close> of length 1 to \<open>L\<close> has a truthy
  entry in the fragment registry.
\<close>

definition completeUpTo :: "PGSLEngine \<Rightarrow> URI list \<Rightarrow> nat \<Rightarrow> bool" where
  "completeUpTo e us L \<longleftrightarrow>
     (\<forall>i len. 1 \<le> len \<longrightarrow> len \<le> L \<longrightarrow> i + len \<le> length us \<longrightarrow>
        truthy (map_of (fragmentRegistry (state e)) (slice us i (i + len))))"

text \<open>The height \<open>getCanonicalFragment\<close> computes for a new fragment.\<close>

definition newHeight :: "PGSLEngine \<Rightarrow> URI list \<Rightarrow> (URI \<times> URI) option \<Rightarrow> nat" where
  "newHeight e content constituents =
     (case constituents of
        Some (c1, c2) \<Rightarrow> max (heightOf e c1) (heightOf e c2) + 1
      | None \<Rightarrow> heightOf e (firstContent content) + 1)"

text \<open>
  \<open>settled e items\<close>: every value among the items is registered and every contiguous slice of
  the resulting base URIs has its fragment.
\<close>

definition settled :: "PGSLEngine \<Rightarrow> Value list \<Rightarrow> bool" where
  "settled e items \<longleftrightarrow>
     (\<forall>item\<in>set items. \<not> isURI (String item) \<longrightarrow>
        truthy (map_of (atomRegistry (state e)) (String item)))
   \<and> completeUpTo e (map (baseOf e) items) (length items)"

definition topOf :: "PGSLEngine \<Rightarrow> Value list \<Rightarrow> URI" where
  "topOf e items =
     (let us = map (baseOf e) items
      in if 2 \<le> length us then the (map_of (fragmentRegistry (state e)) us)
         else the (map_of (fragmentRegistry (state e)) [us ! 0]))"

text \<open>
  The registry keys for which step 1 of \<open>ingestSequence\<close> creates an atom: the distinct
  string forms of the items that are not references and have no truthy registry entry.
\<close>

definition newAtomKeys :: "PGSLEngine \<Rightarrow> Value list \<Rightarrow> string list" where
  "newAtomKeys e items =
     remdups (filter (\<lambda>k. \<not> isURI k \<and> \<not> truthy (map_of (atomRegistry (state e)) k))
                (map String items))"

text \<open>The trailing path segment of an identifier, \<open>id.split('/').pop()\<close>.\<close>

definition trailingSegment :: "string \<Rightarrow> string" where
  "trailingSegment uri = rev (takeWhile (\<lambda>c. c \<noteq> CHR ''/'') (rev uri))"

text \<open>
  The assumption on the host: UUIDs never repeat and contain no slash (they are
  hexadecimal digits and dashes).
\<close>

definition uniqueUUIDs :: "Host \<Rightarrow> bool" where
  "uniqueUUIDs h \<longleftrightarrow> inj (randomUUID h) \<and> (\<forall>k. CHR ''/'' \<notin> set (randomUUID h k))"

text \<open>An identifier minted by this engine so far, and one that no later minting can produce.\<close>

definition mintedBy :: "Host \<Rightarrow> PGSLEngine \<Rightarrow> URI \<Rightarrow> bool" where
  "mintedBy h e u \<longleftrightarrow> u \<noteq> [] \<and> (\<exists>k<minted e. trailingSegment u = randomUUID h k)"

definition known :: "Host \<Rightarrow> PGSLEngine \<Rightarrow> URI \<Rightarrow> bool" where
  "known h e u \<longleftrightarrow> (\<forall>k. trailingSegment u = randomUUID h k \<longrightarrow> k < minted e)"

text \<open>The registry entry that belongs to a node.\<close>

definition atomEntry :: "Node \<Rightarrow> string \<times> URI" where
  "atomEntry n = (String (rdf_value n), node_id n)"

definition fragmentEntry :: "Node \<Rightarrow> URI list \<times> URI" where
  "fragmentEntry n = (pgsl_content n, node_id n)"

text \<open>
  The representation invariant of the engine: every node is stored under its own minted
  identifier, a fragment's level is the length of its content and its constituents are
  non-empty strings, and the two registries list exactly the entries of the atoms and of
  the fragments of the repository, with no key twice.
\<close>

definition nodeOk :: "Host \<Rightarrow> PGSLEngine \<Rightarrow> URI \<times> Node \<Rightarrow> bool" where
  "nodeOk h e p \<longleftrightarrow>
     node_id (snd p) = fst p \<and> mintedBy h e (fst p)
   \<and> (isFragment (snd p) \<longrightarrow>
        pgsl_level (snd p) = length (pgsl_content (snd p))
      \<and> (\<forall>l r. pgsl_constituents (snd p) = Some (l, r) \<longrightarrow> l \<noteq> [] \<and> r \<noteq> []))"

definition consistent :: "Host \<Rightarrow> PGSLEngine \<Rightarrow> bool" where
  "consistent h e \<longleftrightarrow>
     (\<forall>p\<in>set (nodeRepository (state e)). nodeOk h e p)
   \<and> distinct (map fst (nodeRepository (state e)))
   \<and> atomRegistry (state e) = map atomEntry (filter isAtom (getAllNodes e))
   \<and> fragmentRegistry (state e) = map fragmentEntry (filter isFragment (getAllNodes e))
   \<and> distinct (map fst (atomRegistry (state e)))
   \<and> distinct (map fst (fragmentRegistry (state e)))"

text \<open>
  The states the public operations reach from a new engine, with any arguments.
\<close>

inductive reachable :: "Host \<Rightarrow> PGSLEngine \<Rightarrow> bool" for h :: Host where
  r_new: "reachable h constructor"
| r_config: "reachable h e \<Longrightarrow> reachable h (setFederationConfig e auth ag)"
| r_subscribe: "reachable h e \<Longrightarrow> reachable h (subscribe e l)"
| r_unsubscribe: "reachable h e \<Longrightarrow> reachable h (unsubscribe e l)"
| r_atom: "reachable h e \<Longrightarrow> reachable h (snd (getCanonicalAtom h e v))"
| r_ingest: "reachable h e \<Longrightarrow> reachable h (snd (ingestSequence h e items))"
| r_delete: "reachable h e \<Longrightarrow> reachable h (deleteNode e uri)"
| r_reset: "reachable h e \<Longrightarrow> reachable h (reset e)"

text \<open>
  Invariant R1: every atom (fragment) of the repository has exactly one entry of the atom
  (fragment) registry mapping to its id, and every registry entry maps to the id of a node of
  that kind present in the repository.
\<close>

definition R1 :: "PGSLEngine \<Rightarrow> bool" where
  "R1 e \<longleftrightarrow>
     (\<forall>n\<in>set (getAllNodes e).
        (isAtom n \<longrightarrow> length (filter (\<lambda>p. snd p = node_id n) (atomRegistry (state e))) = 1)
      \<and> (isFragment n \<longrightarrow> length (filter (\<lambda>p. snd p = node_id n) (fragmentRegistry (state e))) = 1))
   \<and> (\<forall>p\<in>set (atomRegistry (state e)).
        \<exists>n. getNode e (snd p) = Some n \<and> node_id n = snd p \<and> isAtom n)
   \<and> (\<forall>p\<in>set (fragmentRegistry (state e)).
        \<exists>n. getNode e (snd p) = Some n \<and> node_id n = snd p \<and> isFragment n)"

text \<open>
  No item is a reference to an identifier that the engine has yet to mint: a caller cannot
  name a UUID before it is drawn.
\<close>

definition noForwardRefs :: "Host \<Rightarrow> PGSLEngine \<Rightarrow> Value list \<Rightarrow> bool" where
  "noForwardRefs h e items \<longleftrightarrow>
     (\<forall>item\<in>set items. isURI (String item) \<longrightarrow> known h e (String item))"

text \<open>The states reached when no \<open>ingestSequence\<close> is given such a forward reference.\<close>

inductive reachableNoForward :: "Host \<Rightarrow> PGSLEngine \<Rightarrow> bool" for h :: Host where
  nf_new: "reachableNoForward h constructor"
| nf_config: "reachableNoForward h e \<Longrightarrow> reachableNoForward h (setFederationConfig e auth ag)"
| nf_subscribe: "reachableNoForward h e \<Longrightarrow> reachableNoForward h (subscribe e l)"
| nf_unsubscribe: "reachableNoForward h e \<Longrightarrow> reachableNoForward h (unsubscribe e l)"
| nf_atom: "reachableNoForward h e \<Longrightarrow> reachableNoForward h (snd (getCanonicalAtom h e v))"
| nf_ingest: "reachableNoForward h e \<Longrightarrow> noForwardRefs h e items \<Longrightarrow>
              reachableNoForward h (snd (ingestSequence h e items))"
| nf_delete: "reachableNoForward h e \<Longrightarrow> reachableNoForward h (deleteNode e uri)"
| nf_reset: "reachableNoForward h e \<Longrightarrow> reachableNoForward h (reset e)"

text \<open>
  Every content entry of a fragment that carries a UUID carries one drawn before the
  fragment's own.
\<close>

definition ordered :: "Host \<Rightarrow> PGSLEngine \<Rightarrow> bool" where
  "ordered h e \<longleftrightarrow>
     (\<forall>n\<in>set (getAllNodes e). isFragment n \<longrightarrow>
        (\<forall>c\<in>set (pgsl_content n). \<forall>k k'.
           trailingSegment (node_id n) = randomUUID h k \<longrightarrow>
           trailingSegment c = randomUUID h k' \<longrightarrow> k' < k))"

text \<open>
  The height law: an atom has height 0, a wrapper (no constituents) the height of its
  content child plus 1, a composite the larger height of its two constituents plus 1, where
  an identifier that resolves to no node counts as height 0 (\<open>heightOf\<close>).
\<close>

definition heightLaw :: "PGSLEngine \<Rightarrow> bool" where
  "heightLaw e \<longleftrightarrow>
     (\<forall>n\<in>set (getAllNodes e).
        (isAtom n \<longrightarrow> pgsl_height n = 0)
      \<and> (isFragment n \<longrightarrow>
           (case pgsl_constituents n of
              None \<Rightarrow> pgsl_height n = heightOf e (firstContent (pgsl_content n)) + 1
            | Some (l, r) \<Rightarrow> pgsl_height n = max (heightOf e l) (heightOf e r) + 1)))"

text \<open>
  \<open>referenced e uri\<close>: some fragment of the repository names \<open>uri\<close> where its height was
  computed from: as the content child of a wrapper or as one of the two constituents of a
  composite.
\<close>

definition referenced :: "PGSLEngine \<Rightarrow> URI \<Rightarrow> bool" where
  "referenced e uri \<longleftrightarrow>
     (\<exists>n\<in>set (getAllNodes e). isFragment n \<and>
        (case pgsl_constituents n of
           None \<Rightarrow> firstContent (pgsl_content n) = uri
         | Some (l, r) \<Rightarrow> l = uri \<or> r = uri))"

text \<open>
  A deletion that cannot disturb a stored height: the identifier resolves to no node or to
  a node of height 0, or no fragment refers to it.
\<close>

definition heightNeutral :: "PGSLEngine \<Rightarrow> URI \<Rightarrow> bool" where
  "heightNeutral e uri \<longleftrightarrow> heightOf e uri = 0 \<or> \<not> referenced e uri"

text \<open>
  The states reached without forward references when every \<open>deleteNode\<close> is
  height-neutral.
\<close>

inductive reachableHeightSafe :: "Host \<Rightarrow> PGSLEngine \<Rightarrow> bool" for h :: Host where
  hs_new: "reachableHeightSafe h constructor"
| hs_config: "reachableHeightSafe h e \<Longrightarrow> reachableHeightSafe h (setFederationConfig e auth ag)"
| hs_subscribe: "reachableHeightSafe h e \<Longrightarrow> reachableHeightSafe h (subscribe e l)"
| hs_unsubscribe: "reachableHeightSafe h e \<Longrightarrow> reachableHeightSafe h (unsubscribe e l)"
| hs_atom: "reachableHeightSafe h e \<Longrightarrow> reachableHeightSafe h (snd (getCanonicalAtom h e v))"
| hs_ingest: "reachableHeightSafe h e \<Longrightarrow> noForwardRefs h e items \<Longrightarrow>
              reachableHeightSafe h (snd (ingestSequence h e items))"
| hs_delete: "reachableHeightSafe h e \<Longrightarrow> heightNeutral e uri \<Longrightarrow>
              reachableHeightSafe h (deleteNode e uri)"
| hs_reset: "reachableHeightSafe h e \<Longrightarrow> reachableHeightSafe h (reset e)"

text \<open>
  The invariant behind the height law: each fragment's height is the one
  \<open>getCanonicalFragment\<close> computes in the current state, a wrapper has content, and
  constituents are not forward references.
\<close>

definition lawful :: "Host \<Rightarrow> PGSLEngine \<Rightarrow> bool" where
  "lawful h e \<longleftrightarrow>
     (\<forall>n\<in>set (getAllNodes e). isFragment n \<longrightarrow>
        pgsl_height n = newHeight e (pgsl_content n) (pgsl_constituents n)
      \<and> (pgsl_constituents n = None \<longrightarrow> pgsl_content n \<noteq> [])
      \<and> (\<forall>l r. pgsl_constituents n = Some (l, r) \<longrightarrow> known h e l \<and> known h e r))"

text \<open>
  A singleton wrapper has one content entry and no constituents; a composite fragment has
  constituents.
\<close>

definition isWrapper :: "Node \<Rightarrow> bool" where
  "isWrapper n \<longleftrightarrow> isFragment n \<and> length (pgsl_content n) = 1 \<and> pgsl_constituents n = None"

definition isComposite :: "Node \<Rightarrow> bool" where
  "isComposite n \<longleftrightarrow> isFragment n \<and> pgsl_constituents n \<noteq> None"

section \<open>Basic facts about the primitives\<close>

text \<open>
  On a key that is not an inherited name, the reads of the model are the reads of the code.
\<close>

lemma readProperty_ownKey:
  "ownKey key \<Longrightarrow>
   readProperty obj key = (case map_of obj key of Some v \<Rightarrow> Own v | None \<Rightarrow> Undefined)"
  by (simp add: readProperty_def split: option.splits)

lemma getNode_readProperty:
  "ownKey uri \<Longrightarrow>
   readProperty (nodeRepository (state e)) uri
     = (case getNode e uri of Some n \<Rightarrow> Own n | None \<Rightarrow> Undefined)"
  by (simp add: readProperty_ownKey getNode_def)

text \<open>Minted identifiers and references are never inherited names.\<close>

lemma ownKey_slash: "CHR ''/'' \<in> set key \<Longrightarrow> ownKey key"
  by (auto simp: ownKey_def objectPrototypeNames_def)

lemma ownKey_minted: "ownKey (a @ ''/'' @ ty @ ''/'' @ u)"
  by (rule ownKey_slash) simp

lemma ownKey_isURI: "isURI key \<Longrightarrow> ownKey key"
proof -
  have "\<forall>k\<in>set objectPrototypeNames. \<not> isURI k" by code_simp
  then show "isURI key \<Longrightarrow> ownKey key" unfolding ownKey_def by blast
qed

lemma notify_simps [simp]:
  "state (notify e) = state e" "listeners (notify e) = listeners e"
  "authority (notify e) = authority e" "agent (notify e) = agent e"
  "minted (notify e) = minted e" "notified (notify e) = notified e @ listeners e"
  by (simp_all add: notify_def)

lemma putNode_simps [simp]:
  "atomRegistry (state (putNode u n e)) = atomRegistry (state e)"
  "fragmentRegistry (state (putNode u n e)) = fragmentRegistry (state e)"
  "nodeRepository (state (putNode u n e)) = AList.update u n (nodeRepository (state e))"
  "listeners (putNode u n e) = listeners e" "authority (putNode u n e) = authority e"
  "agent (putNode u n e) = agent e" "minted (putNode u n e) = minted e"
  "notified (putNode u n e) = notified e"
  by (simp_all add: putNode_def)

lemma putAtomKey_simps [simp]:
  "atomRegistry (state (putAtomKey k u e)) = AList.update k u (atomRegistry (state e))"
  "fragmentRegistry (state (putAtomKey k u e)) = fragmentRegistry (state e)"
  "nodeRepository (state (putAtomKey k u e)) = nodeRepository (state e)"
  "listeners (putAtomKey k u e) = listeners e" "authority (putAtomKey k u e) = authority e"
  "agent (putAtomKey k u e) = agent e" "minted (putAtomKey k u e) = minted e"
  "notified (putAtomKey k u e) = notified e"
  by (simp_all add: putAtomKey_def)

lemma putFragmentKey_simps [simp]:
  "atomRegistry (state (putFragmentKey k u e)) = atomRegistry (state e)"
  "fragmentRegistry (state (putFragmentKey k u e)) = AList.update k u (fragmentRegistry (state e))"
  "nodeRepository (state (putFragmentKey k u e)) = nodeRepository (state e)"
  "listeners (putFragmentKey k u e) = listeners e" "authority (putFragmentKey k u e) = authority e"
  "agent (putFragmentKey k u e) = agent e" "minted (putFragmentKey k u e) = minted e"
  "notified (putFragmentKey k u e) = notified e"
  by (simp_all add: putFragmentKey_def)

lemma mintURI_simps [simp]:
  "fst (mintURI h e ty) = authority e @ ''/'' @ ty @ ''/'' @ randomUUID h (minted e)"
  "state (snd (mintURI h e ty)) = state e" "listeners (snd (mintURI h e ty)) = listeners e"
  "authority (snd (mintURI h e ty)) = authority e" "agent (snd (mintURI h e ty)) = agent e"
  "minted (snd (mintURI h e ty)) = Suc (minted e)" "notified (snd (mintURI h e ty)) = notified e"
  by (simp_all add: mintURI_def)

lemma mintURI_nonempty [simp]: "fst (mintURI h e ty) \<noteq> []"
  by simp

lemma truthy_Some_the: "truthy r \<Longrightarrow> r = Some (the r) \<and> the r \<noteq> []"
  by (cases r) auto

lemma grows_refl [simp]: "grows e e"
  by (simp add: grows_def)

lemma grows_trans: "grows e1 e2 \<Longrightarrow> grows e2 e3 \<Longrightarrow> grows e1 e3"
  unfolding grows_def by metis

lemma grows_notify [simp]: "grows e (notify e)" "grows (notify e) e"
  by (simp_all add: grows_def)

subsection \<open>Canonicalization\<close>

lemma getCanonicalAtom_hit:
  "truthy (map_of (atomRegistry (state e)) (String v)) \<Longrightarrow>
   getCanonicalAtom h e v = (the (map_of (atomRegistry (state e)) (String v)), e)"
  by (simp add: getCanonicalAtom_def)

lemma getCanonicalAtom_miss:
  "\<not> truthy (map_of (atomRegistry (state e)) (String v)) \<Longrightarrow>
   getCanonicalAtom h e v =
     (fst (mintURI h e ''atoms''),
      notify (putAtomKey (String v) (fst (mintURI h e ''atoms''))
        (putNode (fst (mintURI h e ''atoms''))
           (AtomNode (fst (mintURI h e ''atoms'')) v (agent e) (toISOString h (minted e)))
           (snd (mintURI h e ''atoms'')))))"
  by (simp add: getCanonicalAtom_def Let_def split_beta)

lemma getCanonicalAtom_registered:
  "map_of (atomRegistry (state (snd (getCanonicalAtom h e v)))) (String v)
     = Some (fst (getCanonicalAtom h e v)) \<and> fst (getCanonicalAtom h e v) \<noteq> []"
proof (cases "truthy (map_of (atomRegistry (state e)) (String v))")
  case True
  then show ?thesis using truthy_Some_the[OF True] by (simp add: getCanonicalAtom_hit)
next
  case False
  then show ?thesis by (simp add: getCanonicalAtom_miss update_conv' del: mintURI_simps(1)) 
qed

lemma getCanonicalAtom_grows: "grows e (snd (getCanonicalAtom h e v))"
proof (cases "truthy (map_of (atomRegistry (state e)) (String v))")
  case True
  then show ?thesis by (simp add: getCanonicalAtom_hit)
next
  case False
  then show ?thesis by (auto simp add: getCanonicalAtom_miss update_conv' grows_def) 
qed

lemma getCanonicalAtom_fragmentRegistry [simp]:
  "fragmentRegistry (state (snd (getCanonicalAtom h e v))) = fragmentRegistry (state e)"
  by (cases "truthy (map_of (atomRegistry (state e)) (String v))")
     (simp_all add: getCanonicalAtom_hit getCanonicalAtom_miss)

lemma getCanonicalAtom_listeners [simp]:
  "listeners (snd (getCanonicalAtom h e v)) = listeners e"
  by (cases "truthy (map_of (atomRegistry (state e)) (String v))")
     (simp_all add: getCanonicalAtom_hit getCanonicalAtom_miss)

lemma getCanonicalFragment_hit:
  "truthy (map_of (fragmentRegistry (state e)) c) \<Longrightarrow>
   getCanonicalFragment h e c cs = (the (map_of (fragmentRegistry (state e)) c), e)"
  by (simp add: getCanonicalFragment_def)

lemma heightOf_mint [simp]: "heightOf (snd (mintURI h e ty)) u = heightOf e u"
  by (simp add: heightOf_def getNode_def)

lemma getCanonicalFragment_miss:
  "\<not> truthy (map_of (fragmentRegistry (state e)) c) \<Longrightarrow>
   getCanonicalFragment h e c cs =
     (fst (mintURI h e ''fragments''),
      putFragmentKey c (fst (mintURI h e ''fragments''))
        (putNode (fst (mintURI h e ''fragments''))
           (FragmentNode (fst (mintURI h e ''fragments'')) (length c) (newHeight e c cs) c cs
              (agent e) (toISOString h (minted e)))
           (snd (mintURI h e ''fragments''))))"
  by (simp add: getCanonicalFragment_def Let_def split_beta newHeight_def split: option.splits)

lemma getCanonicalFragment_registered:
  "map_of (fragmentRegistry (state (snd (getCanonicalFragment h e c cs)))) c
     = Some (fst (getCanonicalFragment h e c cs)) \<and> fst (getCanonicalFragment h e c cs) \<noteq> []"
proof (cases "truthy (map_of (fragmentRegistry (state e)) c)")
  case True
  then show ?thesis using truthy_Some_the[OF True] by (simp add: getCanonicalFragment_hit)
next
  case False
  then show ?thesis by (simp add: getCanonicalFragment_miss update_conv' del: mintURI_simps(1)) 
qed

lemma getCanonicalFragment_grows: "grows e (snd (getCanonicalFragment h e c cs))"
proof (cases "truthy (map_of (fragmentRegistry (state e)) c)")
  case True
  then show ?thesis by (simp add: getCanonicalFragment_hit)
next
  case False
  then show ?thesis by (auto simp add: getCanonicalFragment_miss update_conv' grows_def) 
qed

lemma getCanonicalFragment_atomRegistry [simp]:
  "atomRegistry (state (snd (getCanonicalFragment h e c cs))) = atomRegistry (state e)"
  by (cases "truthy (map_of (fragmentRegistry (state e)) c)")
     (simp_all add: getCanonicalFragment_hit getCanonicalFragment_miss)

lemma getCanonicalFragment_listeners [simp]:
  "listeners (snd (getCanonicalFragment h e c cs)) = listeners e"
  "notified (snd (getCanonicalFragment h e c cs)) = notified e"
  by (cases "truthy (map_of (fragmentRegistry (state e)) c)";
      simp add: getCanonicalFragment_hit getCanonicalFragment_miss)+

lemma grows_truthy_atom:
  "grows e e' \<Longrightarrow> truthy (map_of (atomRegistry (state e)) k) \<Longrightarrow>
   map_of (atomRegistry (state e')) k = map_of (atomRegistry (state e)) k"
  by (simp add: grows_def)

lemma grows_truthy_fragment:
  "grows e e' \<Longrightarrow> truthy (map_of (fragmentRegistry (state e)) c) \<Longrightarrow>
   map_of (fragmentRegistry (state e')) c = map_of (fragmentRegistry (state e)) c"
  by (simp add: grows_def)

subsection \<open>Step 1: normalising the items\<close>

lemma normalizeItems_fixed:
  "(\<forall>item\<in>set items. \<not> isURI (String item) \<longrightarrow>
       truthy (map_of (atomRegistry (state e)) (String item))) \<Longrightarrow>
   normalizeItems h e items = (map (baseOf e) items, e)"
  by (induction items) (auto simp: getCanonicalAtom_hit baseOf_def)

lemma normalizeItems_result:
  "normalizeItems h e items = (us, e') \<Longrightarrow>
     grows e e' \<and> us = map (baseOf e') items
     \<and> (\<forall>item\<in>set items. \<not> isURI (String item) \<longrightarrow>
           truthy (map_of (atomRegistry (state e')) (String item)))
     \<and> fragmentRegistry (state e') = fragmentRegistry (state e)
     \<and> listeners e' = listeners e"
proof (induction items arbitrary: e us)
  case Nil
  then show ?case by simp
next
  case (Cons item rest)
  show ?case
  proof (cases "isURI (String item)")
    case True
    obtain us1 where r: "normalizeItems h e rest = (us1, e')" and u: "us = String item # us1"
      using Cons.prems True by (auto simp: Let_def split: prod.splits)
    from Cons.IH[OF r] show ?thesis using True u by (simp add: baseOf_def)
  next
    case False
    define e1 where "e1 = snd (getCanonicalAtom h e item)"
    define u where "u = fst (getCanonicalAtom h e item)"
    have ga: "getCanonicalAtom h e item = (u, e1)" by (simp add: e1_def u_def)
    obtain us1 where r: "normalizeItems h e1 rest = (us1, e')" and us: "us = u # us1"
      using Cons.prems False ga by (auto simp: Let_def split: prod.splits)
    have reg: "map_of (atomRegistry (state e1)) (String item) = Some u" "u \<noteq> []"
      using getCanonicalAtom_registered[of h e item] by (simp_all add: e1_def u_def)
    have g1: "grows e e1" using getCanonicalAtom_grows[of e h item] by (simp add: e1_def)
    note ih = Cons.IH[OF r]
    have keep: "map_of (atomRegistry (state e')) (String item) = Some u"
      using grows_truthy_atom[of e1 e' "String item"] ih reg by simp
    have "grows e e'" using g1 ih grows_trans by blast
    moreover have "us = map (baseOf e') (item # rest)"
      using us ih keep False by (simp add: baseOf_def)
    moreover have "fragmentRegistry (state e') = fragmentRegistry (state e)"
      using ih by (simp add: e1_def)
    moreover have "listeners e' = listeners e"
      using ih by (simp add: e1_def)
    ultimately show ?thesis using ih keep reg by simp
  qed
qed

subsection \<open>Step 2: the wrappers\<close>

lemma wrapAll_fixed:
  "(\<forall>u\<in>set us. truthy (map_of (fragmentRegistry (state e)) [u])) \<Longrightarrow>
   wrapAll h e us = (map (\<lambda>u. the (map_of (fragmentRegistry (state e)) [u])) us, e)"
  by (induction us) (auto simp: getCanonicalFragment_hit)

lemma wrapAll_result:
  "wrapAll h e us = (ws, e') \<Longrightarrow>
     grows e e' \<and> ws = map (\<lambda>u. the (map_of (fragmentRegistry (state e')) [u])) us
     \<and> (\<forall>u\<in>set us. truthy (map_of (fragmentRegistry (state e')) [u]))
     \<and> atomRegistry (state e') = atomRegistry (state e)
     \<and> listeners e' = listeners e \<and> notified e' = notified e"
proof (induction us arbitrary: e ws)
  case Nil
  then show ?case by simp
next
  case (Cons b rest)
  define e1 where "e1 = snd (getCanonicalFragment h e [b] None)"
  define w where "w = fst (getCanonicalFragment h e [b] None)"
  have gf: "getCanonicalFragment h e [b] None = (w, e1)" by (simp add: e1_def w_def)
  obtain ws1 where r: "wrapAll h e1 rest = (ws1, e')" and ws: "ws = w # ws1"
    using Cons.prems gf by (auto simp: Let_def split: prod.splits)
  have reg: "map_of (fragmentRegistry (state e1)) [b] = Some w" "w \<noteq> []"
    using getCanonicalFragment_registered[of h e "[b]" None] by (simp_all add: e1_def w_def)
  have g1: "grows e e1" using getCanonicalFragment_grows[of e h "[b]" None] by (simp add: e1_def)
  note ih = Cons.IH[OF r]
  have keep: "map_of (fragmentRegistry (state e')) [b] = Some w"
    using grows_truthy_fragment[of e1 e' "[b]"] ih reg by simp
  have "grows e e'" using g1 ih grows_trans by blast
  moreover have "atomRegistry (state e') = atomRegistry (state e)"
    using ih by (simp add: e1_def)
  moreover have "listeners e' = listeners e" "notified e' = notified e"
    using ih by (simp_all add: e1_def)
  ultimately show ?case using ih keep reg ws by simp
qed

lemma wrapAll_length: "length (fst (wrapAll h e us)) = length us"
  by (induction us arbitrary: e) (simp_all add: Let_def split_beta)

lemma normalizeItems_length: "length (fst (normalizeItems h e items)) = length items"
  by (induction items arbitrary: e) (simp_all add: Let_def split_beta)

subsection \<open>Step 3: the lattice loops\<close>

lemma slice_whole [simp]: "slice us 0 (length us) = us"
  by (simp add: slice_def)

lemma buildStep_result:
  assumes l: "truthy (map_of (fragmentRegistry (state e)) (slice us i (i + len - 1)))"
      and r: "truthy (map_of (fragmentRegistry (state e)) (slice us (i + 1) (i + len)))"
      and b: "buildStep h us N len i (t, e) = (t', e')"
  shows "grows e e'
       \<and> truthy (map_of (fragmentRegistry (state e')) (slice us i (i + len)))
       \<and> t' = (if len = N then the (map_of (fragmentRegistry (state e')) (slice us i (i + len))) else t)
       \<and> atomRegistry (state e') = atomRegistry (state e)
       \<and> listeners e' = listeners e \<and> notified e' = notified e"
proof -
  define g where "g = getCanonicalFragment h e (slice us i (i + len))
      (Some (the (map_of (fragmentRegistry (state e)) (slice us i (i + len - 1))),
             the (map_of (fragmentRegistry (state e)) (slice us (i + 1) (i + len)))))"
  have "buildStep h us N len i (t, e) = (if len = N then fst g else t, snd g)"
    using l r unfolding buildStep_def g_def by (simp add: Let_def split_beta)
  then have e': "e' = snd g" and t': "t' = (if len = N then fst g else t)"
    using b by simp_all
  have reg: "map_of (fragmentRegistry (state e')) (slice us i (i + len)) = Some (fst g)"
            "fst g \<noteq> []"
    unfolding e' g_def using getCanonicalFragment_registered by blast+
  have g: "grows e e'" unfolding e' g_def using getCanonicalFragment_grows by blast
  have a: "atomRegistry (state e') = atomRegistry (state e)"
          "listeners e' = listeners e" "notified e' = notified e"
    unfolding e' g_def by simp_all
  have tr: "truthy (map_of (fragmentRegistry (state e')) (slice us i (i + len)))"
    using reg by simp
  have tt: "t' = (if len = N then the (map_of (fragmentRegistry (state e')) (slice us i (i + len))) else t)"
    using reg(1) t' by (metis option.sel)
  show ?thesis using g a tr tt by blast
qed

lemma buildStep_fixed:
  assumes "truthy (map_of (fragmentRegistry (state e)) (slice us i (i + len - 1)))"
      and "truthy (map_of (fragmentRegistry (state e)) (slice us (i + 1) (i + len)))"
      and "truthy (map_of (fragmentRegistry (state e)) (slice us i (i + len)))"
  shows "buildStep h us N len i (t, e) =
           (if len = N then the (map_of (fragmentRegistry (state e)) (slice us i (i + len))) else t, e)"
  using assms by (simp add: buildStep_def Let_def getCanonicalFragment_hit)

lemma completeUpTo_grows: "completeUpTo e us L \<Longrightarrow> grows e e' \<Longrightarrow> completeUpTo e' us L"
  unfolding completeUpTo_def using grows_truthy_fragment by metis

lemma completeUpTo_left:
  assumes "completeUpTo e us (len - 1)" "2 \<le> len" "i + len \<le> length us"
  shows "truthy (map_of (fragmentRegistry (state e)) (slice us i (i + len - 1)))"
proof -
  have "i + len - 1 = i + (len - 1)" using assms by simp
  moreover have "truthy (map_of (fragmentRegistry (state e)) (slice us i (i + (len - 1))))"
    using assms(1)[unfolded completeUpTo_def, rule_format, of "len - 1" i] assms(2,3) by simp
  ultimately show ?thesis by simp
qed

lemma completeUpTo_right:
  assumes "completeUpTo e us (len - 1)" "2 \<le> len" "i + len \<le> length us"
  shows "truthy (map_of (fragmentRegistry (state e)) (slice us (i + 1) (i + len)))"
proof -
  have "i + len = (i + 1) + (len - 1)" using assms by simp
  moreover have "truthy (map_of (fragmentRegistry (state e)) (slice us (i + 1) ((i + 1) + (len - 1))))"
    using assms(1)[unfolded completeUpTo_def, rule_format, of "len - 1" "i + 1"] assms(2,3) by simp
  ultimately show ?thesis by simp
qed

lemma buildLevel_prefix:
  assumes N: "N = length us" and len: "2 \<le> len" "len \<le> N"
      and c: "completeUpTo e us (len - 1)"
  shows "n \<le> Suc (N - len) \<Longrightarrow> fold (buildStep h us N len) [0..<n] (t, e) = (t', e') \<Longrightarrow>
         grows e e' \<and> completeUpTo e' us (len - 1)
       \<and> (\<forall>i<n. truthy (map_of (fragmentRegistry (state e')) (slice us i (i + len))))
       \<and> (len = N \<and> 0 < n \<longrightarrow> t' = the (map_of (fragmentRegistry (state e')) us))
       \<and> atomRegistry (state e') = atomRegistry (state e)
       \<and> listeners e' = listeners e \<and> notified e' = notified e"
proof (induction n arbitrary: t' e')
  case 0
  then show ?case using c by simp
next
  case (Suc n)
  obtain t1 e1 where f1: "fold (buildStep h us N len) [0..<n] (t, e) = (t1, e1)"
    by (cases "fold (buildStep h us N len) [0..<n] (t, e)")
  have st: "buildStep h us N len n (t1, e1) = (t', e')"
    using Suc.prems(2) f1 by simp
  have n: "n + len \<le> length us" using Suc.prems(1) len N by simp
  have ih: "grows e e1" "completeUpTo e1 us (len - 1)"
      "\<forall>i<n. truthy (map_of (fragmentRegistry (state e1)) (slice us i (i + len)))"
      "atomRegistry (state e1) = atomRegistry (state e)"
      "listeners e1 = listeners e" "notified e1 = notified e"
    using Suc.IH[OF _ f1] Suc.prems(1) by simp_all
  note r = buildStep_result[OF completeUpTo_left[OF ih(2) len(1) n]
                               completeUpTo_right[OF ih(2) len(1) n] st]
  have g: "grows e e'" using ih(1) r grows_trans by blast
  have c': "completeUpTo e' us (len - 1)" using completeUpTo_grows ih(2) r by blast
  have all: "\<forall>i<Suc n. truthy (map_of (fragmentRegistry (state e')) (slice us i (i + len)))"
  proof (intro allI impI)
    fix i assume "i < Suc n"
    then consider "i < n" | "i = n" by linarith
    then show "truthy (map_of (fragmentRegistry (state e')) (slice us i (i + len)))"
    proof cases
      case 1
      then have "truthy (map_of (fragmentRegistry (state e1)) (slice us i (i + len)))"
        using ih(3) by simp
      then show ?thesis using grows_truthy_fragment r by metis
    next
      case 2
      then show ?thesis using r by simp
    qed
  qed
  have top: "len = N \<longrightarrow> t' = the (map_of (fragmentRegistry (state e')) us)"
  proof
    assume "len = N"
    then have "n = 0" using Suc.prems(1) by simp
    then show "t' = the (map_of (fragmentRegistry (state e')) us)"
      using r \<open>len = N\<close> N by simp
  qed
  show ?case using g c' all top r ih by simp
qed

lemma buildLevel_result:
  assumes N: "N = length us" and len: "2 \<le> len" "len \<le> N"
      and c: "completeUpTo e us (len - 1)"
      and b: "buildLevel h us N len (t, e) = (t', e')"
  shows "grows e e' \<and> completeUpTo e' us len
       \<and> (len = N \<longrightarrow> t' = the (map_of (fragmentRegistry (state e')) us))
       \<and> atomRegistry (state e') = atomRegistry (state e)
       \<and> listeners e' = listeners e \<and> notified e' = notified e"
proof -
  note p = buildLevel_prefix[OF N len c, of "Suc (N - len)" h t t' e']
  have f: "fold (buildStep h us N len) [0..<Suc (N - len)] (t, e) = (t', e')"
    using b by (simp add: buildLevel_def)
  have facts: "grows e e'" "completeUpTo e' us (len - 1)"
      "\<forall>i<Suc (N - len). truthy (map_of (fragmentRegistry (state e')) (slice us i (i + len)))"
      "len = N \<longrightarrow> t' = the (map_of (fragmentRegistry (state e')) us)"
      "atomRegistry (state e') = atomRegistry (state e)"
      "listeners e' = listeners e" "notified e' = notified e"
    using p[OF _ f] by simp_all
  have "completeUpTo e' us len"
    unfolding completeUpTo_def
  proof (intro allI impI)
    fix i l assume a: "1 \<le> l" "l \<le> len" "i + l \<le> length us"
    show "truthy (map_of (fragmentRegistry (state e')) (slice us i (i + l)))"
    proof (cases "l = len")
      case True
      then have "i < Suc (N - len)" using a N by simp
      then show ?thesis using facts(3) True by simp
    next
      case False
      then have "l \<le> len - 1" using a by simp
      then show ?thesis using facts(2) a unfolding completeUpTo_def by simp
    qed
  qed
  then show ?thesis using facts by simp
qed

lemma buildLattice_prefix:
  assumes N: "N = length us" and c: "completeUpTo e us 1"
  shows "2 \<le> m \<Longrightarrow> m \<le> Suc N \<Longrightarrow> fold (buildLevel h us N) [2..<m] (t, e) = (t', e') \<Longrightarrow>
         grows e e' \<and> completeUpTo e' us (m - 1)
       \<and> (m = Suc N \<and> 2 \<le> N \<longrightarrow> t' = the (map_of (fragmentRegistry (state e')) us))
       \<and> atomRegistry (state e') = atomRegistry (state e)
       \<and> listeners e' = listeners e \<and> notified e' = notified e"
proof (induction m arbitrary: t' e')
  case 0
  then show ?case by simp
next
  case (Suc m)
  show ?case
  proof (cases "2 \<le> m")
    case False
    then have m: "Suc m = 2" using Suc.prems(1) by simp
    have "[2..<Suc m] = []" unfolding m by simp
    then have "t' = t" "e' = e" using Suc.prems(3) by simp_all
    moreover have "Suc m - 1 = 1" using m by simp
    moreover have "\<not> (Suc m = Suc N \<and> 2 \<le> N)" using m by simp
    moreover have "completeUpTo e us (Suc 0)" using c by simp
    ultimately show ?thesis by auto
  next
    case True
    have up: "[2..<Suc m] = [2..<m] @ [m]" using True by (rule upt_Suc_append)
    obtain t1 e1 where f1: "fold (buildLevel h us N) [2..<m] (t, e) = (t1, e1)"
      by (cases "fold (buildLevel h us N) [2..<m] (t, e)")
    have st: "buildLevel h us N m (t1, e1) = (t', e')"
      using Suc.prems(3) f1 unfolding up by simp
    have mN: "m \<le> N" "m \<le> Suc N" using Suc.prems(2) by simp_all
    note ih = Suc.IH[OF True mN(2) f1]
    have c1: "completeUpTo e1 us (m - 1)" using ih by blast
    note r = buildLevel_result[OF N True mN(1) c1 st]
    have g: "grows e e'" using ih r grows_trans by blast
    have cm: "completeUpTo e' us (Suc m - 1)" using r by simp
    have top: "Suc m = Suc N \<and> 2 \<le> N \<longrightarrow> t' = the (map_of (fragmentRegistry (state e')) us)"
      using r by simp
    have a: "atomRegistry (state e') = atomRegistry (state e)"
        "listeners e' = listeners e" "notified e' = notified e"
      using r ih by simp_all
    show ?thesis using g cm top a by blast
  qed
qed

lemma buildLattice_result:
  assumes N: "N = length us" "1 \<le> N" and c: "completeUpTo e us 1"
      and b: "buildLattice h us N (t, e) = (t', e')"
  shows "grows e e' \<and> completeUpTo e' us N
       \<and> (2 \<le> N \<longrightarrow> t' = the (map_of (fragmentRegistry (state e')) us))
       \<and> atomRegistry (state e') = atomRegistry (state e)
       \<and> listeners e' = listeners e \<and> notified e' = notified e"
proof -
  have f: "fold (buildLevel h us N) [2..<Suc N] (t, e) = (t', e')"
    using b unfolding buildLattice_def .
  have m: "2 \<le> Suc N" using N by simp
  note p = buildLattice_prefix[OF N(1) c m _ f]
  show ?thesis
  proof (intro conjI impI)
    show "grows e e'" using p by blast
    show "completeUpTo e' us N" using p by simp
    show "t' = the (map_of (fragmentRegistry (state e')) us)" if "2 \<le> N"
      using p that by simp
    show "atomRegistry (state e') = atomRegistry (state e)" using p by blast
    show "listeners e' = listeners e" using p by blast
    show "notified e' = notified e" using p by blast
  qed
qed

lemma buildLevel_fixed_prefix:
  assumes N: "N = length us" and len: "2 \<le> len" "len \<le> N"
      and c: "completeUpTo e us N"
  shows "n \<le> Suc (N - len) \<Longrightarrow>
         fold (buildStep h us N len) [0..<n] (t, e) =
           (if len = N \<and> 0 < n then the (map_of (fragmentRegistry (state e)) us) else t, e)"
proof (induction n)
  case 0
  then show ?case by simp
next
  case (Suc n)
  have n: "n + len \<le> length us" using Suc.prems len N by simp
  have c1: "completeUpTo e us (len - 1)"
    using c len unfolding completeUpTo_def by simp
  have cur: "truthy (map_of (fragmentRegistry (state e)) (slice us n (n + len)))"
    using c[unfolded completeUpTo_def, rule_format, of len n] len n N by simp
  note fx = buildStep_fixed[OF completeUpTo_left[OF c1 len(1) n]
                               completeUpTo_right[OF c1 len(1) n] cur]
  have ih: "fold (buildStep h us N len) [0..<n] (t, e) =
           (if len = N \<and> 0 < n then the (map_of (fragmentRegistry (state e)) us) else t, e)"
    using Suc.IH Suc.prems by simp
  have n0: "len = N \<Longrightarrow> n = 0" using Suc.prems by simp
  have "fold (buildStep h us N len) [0..<Suc n] (t, e)
          = buildStep h us N len n (fold (buildStep h us N len) [0..<n] (t, e))"
    by simp
  also have "\<dots> = (if len = N \<and> 0 < Suc n then the (map_of (fragmentRegistry (state e)) us) else t, e)"
  proof (cases "len = N")
    case True
    then show ?thesis using ih fx n0 N by simp
  next
    case False
    then show ?thesis using ih fx by simp
  qed
  finally show ?case .
qed

lemma buildLevel_fixed:
  assumes "N = length us" "2 \<le> len" "len \<le> N" "completeUpTo e us N"
  shows "buildLevel h us N len (t, e) =
           (if len = N then the (map_of (fragmentRegistry (state e)) us) else t, e)"
  using buildLevel_fixed_prefix[OF assms, of "Suc (N - len)" h t]
  by (simp add: buildLevel_def)

lemma buildLattice_fixed_prefix:
  assumes N: "N = length us" and c: "completeUpTo e us N"
  shows "2 \<le> m \<Longrightarrow> m \<le> Suc N \<Longrightarrow>
         fold (buildLevel h us N) [2..<m] (t, e) =
           (if m = Suc N \<and> 2 \<le> N then the (map_of (fragmentRegistry (state e)) us) else t, e)"
proof (induction m)
  case 0
  then show ?case by simp
next
  case (Suc m)
  show ?case
  proof (cases "2 \<le> m")
    case False
    then have m: "Suc m = 2" using Suc.prems(1) by simp
    have nil: "[2..<Suc m] = []" unfolding m by simp
    have "\<not> (Suc m = Suc N \<and> 2 \<le> N)" using m by simp
    then show ?thesis unfolding nil by auto
  next
    case True
    have up: "[2..<Suc m] = [2..<m] @ [m]" using True by (rule upt_Suc_append)
    have mN: "m \<le> N" "m \<le> Suc N" "m \<noteq> Suc N" using Suc.prems(2) by simp_all
    have ih: "fold (buildLevel h us N) [2..<m] (t, e) = (t, e)"
      using Suc.IH[OF True mN(2)] mN(3) by simp
    have "fold (buildLevel h us N) [2..<Suc m] (t, e) = buildLevel h us N m (t, e)"
      unfolding up using ih by simp
    also have "\<dots> = (if m = N then the (map_of (fragmentRegistry (state e)) us) else t, e)"
      by (rule buildLevel_fixed[OF N True mN(1) c])
    finally show ?thesis using True by auto
  qed
qed

lemma buildLattice_fixed:
  assumes "N = length us" "1 \<le> N" "completeUpTo e us N"
  shows "buildLattice h us N (t, e) =
           (if 2 \<le> N then the (map_of (fragmentRegistry (state e)) us) else t, e)"
proof -
  have "2 \<le> Suc N" using assms(2) by simp
  from buildLattice_fixed_prefix[OF assms(1,3) this, of h t] show ?thesis
    by (simp add: buildLattice_def)
qed

section \<open>Idempotence of \<open>ingestSequence\<close>\<close>

lemma baseOf_notify [simp]: "baseOf (notify e) = baseOf e"
  by (rule ext) (simp add: baseOf_def)

lemma completeUpTo_notify [simp]: "completeUpTo (notify e) us L = completeUpTo e us L"
  by (simp add: completeUpTo_def)

lemma slice_single: "i < length us \<Longrightarrow> slice us i (i + 1) = [us ! i]"
  by (simp add: slice_def take_Suc_conv_app_nth[of 0, simplified] hd_drop_conv_nth take_Suc)

lemma completeUpTo_wrappers:
  assumes "completeUpTo e us L" "1 \<le> L"
  shows "\<forall>u\<in>set us. truthy (map_of (fragmentRegistry (state e)) [u])"
proof
  fix u assume "u \<in> set us"
  then obtain i where i: "i < length us" "us ! i = u" by (auto simp: in_set_conv_nth)
  have "truthy (map_of (fragmentRegistry (state e)) (slice us i (i + 1)))"
    using assms(1)[unfolded completeUpTo_def, rule_format, of 1 i] assms(2) i by simp
  then show "truthy (map_of (fragmentRegistry (state e)) [u])"
    using slice_single[OF i(1)] i(2) by simp
qed

lemma wrappers_completeUpTo:
  assumes "\<forall>u\<in>set us. truthy (map_of (fragmentRegistry (state e)) [u])"
  shows "completeUpTo e us 1"
  unfolding completeUpTo_def
proof (intro allI impI)
  fix i len assume a: "1 \<le> len" "len \<le> 1" "i + len \<le> length us"
  then have len: "len = 1" and i: "i < length us" by simp_all
  show "truthy (map_of (fragmentRegistry (state e)) (slice us i (i + len)))"
    unfolding len slice_single[OF i] using assms i by simp
qed

lemma ingestSequence_fixed:
  assumes ne: "items \<noteq> []" and s: "settled e items"
  shows "ingestSequence h e items = (Inr (topOf e items), notify e)"
proof -
  let ?us = "map (baseOf e) items"
  have n: "normalizeItems h e items = (?us, e)"
    using s by (simp add: settled_def normalizeItems_fixed)
  have c: "completeUpTo e ?us (length ?us)" using s by (simp add: settled_def)
  have N: "1 \<le> length ?us" using ne by (cases items) simp_all
  have w: "wrapAll h e ?us = (map (\<lambda>u. the (map_of (fragmentRegistry (state e)) [u])) ?us, e)"
    using completeUpTo_wrappers[OF c N] by (rule wrapAll_fixed)
  have w0: "map (\<lambda>u. the (map_of (fragmentRegistry (state e)) [u])) ?us ! 0
              = the (map_of (fragmentRegistry (state e)) [?us ! 0])"
    using ne by (cases items) simp_all
  show ?thesis
  proof (cases "length items = 1")
    case True
    then show ?thesis using ne n w w0
      by (simp add: ingestSequence_def topOf_def Let_def del: map_map)
  next
    case False
    then have N2: "2 \<le> length ?us" using N by simp
    have b: "buildLattice h ?us (length ?us) (t, e) = (the (map_of (fragmentRegistry (state e)) ?us), e)" for t
      using buildLattice_fixed[OF refl N c, of h t] N2 by simp
    have "ingestSequence h e items =
           (Inr (the (map_of (fragmentRegistry (state e)) ?us)), notify e)"
      unfolding ingestSequence_def using ne False n w b
      by (simp add: Let_def del: map_map)
    then show ?thesis using N2 by (simp add: topOf_def Let_def del: map_map)
  qed
qed

lemma ingestSequence_settles:
  assumes ne: "items \<noteq> []"
  shows "\<exists>eF. ingestSequence h e items = (Inr (topOf eF items), notify eF) \<and> settled eF items
            \<and> grows e eF \<and> listeners eF = listeners e"
proof -
  obtain us ea where n: "normalizeItems h e items = (us, ea)"
    by (cases "normalizeItems h e items")
  obtain ws eb where w: "wrapAll h ea us = (ws, eb)"
    by (cases "wrapAll h ea us")
  note nr = normalizeItems_result[OF n]
  note wr = wrapAll_result[OF w]
  have lus: "length us = length items" using nr by simp
  have lws: "length ws = length items" using wr lus by simp
  have N: "1 \<le> length us" using ne lus by (cases items) simp_all
  have bo: "baseOf e' = baseOf ea" if "atomRegistry (state e') = atomRegistry (state ea)" for e'
    using that by (auto simp: baseOf_def)
  have c1: "completeUpTo eb us 1" using wr wrappers_completeUpTo by blast
  show ?thesis
  proof (cases "length items = 1")
    case True
    have r: "ingestSequence h e items = (Inr (ws ! 0), notify eb)"
      using ne n w True lws by (simp add: ingestSequence_def Let_def)
    have us: "us = map (baseOf eb) items" using nr bo[of eb] wr by simp
    have "settled eb items"
      unfolding settled_def using nr wr c1 True us by simp
    moreover have "ws ! 0 = topOf eb items"
      using wr us True N by (simp add: topOf_def Let_def nth_map del: map_map)
    moreover have "grows e eb" using nr wr grows_trans by blast
    ultimately show ?thesis using r nr wr by auto
  next
    case False
    then have N2: "2 \<le> length us" using N lus by simp
    obtain top ec where b: "buildLattice h us (length us) (ws ! 0, eb) = (top, ec)"
      by (cases "buildLattice h us (length us) (ws ! 0, eb)")
    note br = buildLattice_result[OF refl N c1 b]
    have r: "ingestSequence h e items = (Inr top, notify ec)"
      using ne n w False lws b by (simp add: ingestSequence_def Let_def)
    have us: "us = map (baseOf ec) items" using nr bo[of ec] wr br by simp
    have "settled ec items"
      unfolding settled_def using nr wr br us lus by simp
    moreover have "top = topOf ec items"
      using br N2 us by (simp add: topOf_def Let_def del: map_map)
    moreover have "grows e ec" using nr wr br grows_trans by blast
    ultimately show ?thesis using r nr wr br by auto
  qed
qed

lemma settled_notify [simp]: "settled (notify e) items = settled e items"
  by (simp add: settled_def)

lemma topOf_notify [simp]: "topOf (notify e) items = topOf e items"
  by (simp add: topOf_def Let_def)

text \<open>
  C2. For a non-empty sequence, a second \<open>ingestSequence\<close> with the same items returns the
  same identifier and only notifies: repository, registries and creation counter are
  unchanged.
\<close>

theorem ingestSequence_idempotent:
  assumes "items \<noteq> []"
  shows "\<exists>uri e1. ingestSequence h e items = (Inr uri, e1)
           \<and> ingestSequence h e1 items = (Inr uri, notify e1)
           \<and> state (notify e1) = state e1 \<and> minted (notify e1) = minted e1"
proof -
  obtain eF where f: "ingestSequence h e items = (Inr (topOf eF items), notify eF)"
      and s: "settled eF items"
    using ingestSequence_settles[OF assms] by blast
  have "ingestSequence h (notify eF) items = (Inr (topOf (notify eF) items), notify (notify eF))"
    by (rule ingestSequence_fixed[OF assms]) (simp add: s)
  then show ?thesis using f by simp
qed

theorem ingestSequence_idempotent_witness:
  "[VString ''a'', VNumber ''7'', VString ''http://x/y'', VString ''a''] \<noteq> []
   \<and> (\<exists>uri e1. ingestSequence demoHost constructor [VString ''a'', VNumber ''7'', VString ''http://x/y'', VString ''a''] = (Inr uri, e1)
           \<and> ingestSequence demoHost e1 [VString ''a'', VNumber ''7'', VString ''http://x/y'', VString ''a''] = (Inr uri, notify e1)
           \<and> state (notify e1) = state e1 \<and> minted (notify e1) = minted e1)"
  using ingestSequence_idempotent [of "[VString ''a'', VNumber ''7'', VString ''http://x/y'', VString ''a'']" demoHost constructor]
  by simp

section \<open>Errors and result of \<open>ingestSequence\<close>\<close>

lemma topOf_whole:
  assumes "items \<noteq> []"
  shows "topOf e items = the (map_of (fragmentRegistry (state e)) (map (baseOf e) items))"
proof (cases "2 \<le> length items")
  case True
  then show ?thesis by (simp add: topOf_def Let_def)
next
  case False
  then obtain x where "items = [x]" using assms by (cases items) (auto simp: Suc_le_eq)
  then show ?thesis by (simp add: topOf_def Let_def)
qed

lemma settled_whole:
  assumes "items \<noteq> []" "settled e items"
  shows "truthy (map_of (fragmentRegistry (state e)) (map (baseOf e) items))"
proof -
  define us where "us = map (baseOf e) items"
  have l: "1 \<le> length us" "length us = length items"
    using assms(1) by (cases items; simp add: us_def)+
  have c: "completeUpTo e us (length us)" using assms(2) by (simp add: settled_def us_def)
  have "truthy (map_of (fragmentRegistry (state e)) (slice us 0 (0 + length us)))"
    using c[unfolded completeUpTo_def, rule_format, of "length us" 0] l by simp
  then show ?thesis by (simp add: us_def slice_def)
qed

text \<open>
  C4. \<open>ingestSequence\<close> raises exactly on the empty list, and then returns the engine as it
  was (no mutation, no listener invoked). On every non-empty list, whatever its items
  (raw values or references, resolved or not), it returns an identifier: a non-empty
  string that the fragment registry of the resulting state holds as a value. In the loop,
  a missing left or right constituent leaves the engine and the result so far untouched
  (the \<open>continue\<close> branch), so only that fragment is skipped.
\<close>

theorem ingestSequence_raises_iff_empty:
  "((\<exists>err. fst (ingestSequence h e items) = Inl err) = (items = []))
   \<and> ingestSequence h e [] = (Inl EmptySequence, e)
   \<and> (items \<noteq> [] \<longrightarrow>
        (\<exists>uri. fst (ingestSequence h e items) = Inr uri \<and> uri \<noteq> []
           \<and> uri \<in> snd ` set (fragmentRegistry (state (snd (ingestSequence h e items))))))
   \<and> (\<not> truthy (map_of (fragmentRegistry (state e0)) (slice us i (i + len - 1)))
        \<or> \<not> truthy (map_of (fragmentRegistry (state e0)) (slice us (i + 1) (i + len)))
      \<longrightarrow> buildStep h us N len i (t, e0) = (t, e0))"
proof (intro conjI impI)
  show "(\<exists>err. fst (ingestSequence h e items) = Inl err) = (items = [])"
    by (auto simp: ingestSequence_def Let_def split: prod.splits)
  show "ingestSequence h e [] = (Inl EmptySequence, e)"
    by (simp add: ingestSequence_def)
next
  assume ne: "items \<noteq> []"
  obtain eF where f: "ingestSequence h e items = (Inr (topOf eF items), notify eF)"
      and s: "settled eF items"
    using ingestSequence_settles[OF ne] by blast
  note t = truthy_Some_the[OF settled_whole[OF ne s]]
  have m: "map_of (fragmentRegistry (state eF)) (map (baseOf eF) items) = Some (topOf eF items)"
    using t topOf_whole[OF ne, of eF] by simp
  have "topOf eF items \<in> snd ` set (fragmentRegistry (state (notify eF)))"
    using map_of_SomeD[OF m] by force
  moreover have "topOf eF items \<noteq> []" using t topOf_whole[OF ne, of eF] by simp
  ultimately show "\<exists>uri. fst (ingestSequence h e items) = Inr uri \<and> uri \<noteq> []
           \<and> uri \<in> snd ` set (fragmentRegistry (state (snd (ingestSequence h e items))))"
    using f by simp
next
  assume "\<not> truthy (map_of (fragmentRegistry (state e0)) (slice us i (i + len - 1)))
        \<or> \<not> truthy (map_of (fragmentRegistry (state e0)) (slice us (i + 1) (i + len)))"
  then show "buildStep h us N len i (t, e0) = (t, e0)"
    by (auto simp: buildStep_def Let_def)
qed

theorem ingestSequence_raises_iff_empty_witness:
  "ingestSequence demoHost constructor [] = (Inl EmptySequence, constructor)
   \<and> [VString ''a'', VString ''did:elsewhere''] \<noteq> []
   \<and> (\<exists>uri. fst (ingestSequence demoHost constructor [VString ''a'', VString ''did:elsewhere'']) = Inr uri
         \<and> uri \<noteq> []
         \<and> uri \<in> snd ` set (fragmentRegistry (state (snd
              (ingestSequence demoHost constructor [VString ''a'', VString ''did:elsewhere''])))))
   \<and> \<not> truthy (map_of (fragmentRegistry (state constructor)) (slice [''x'', ''y''] 0 (0 + 2 - 1)))
   \<and> buildStep demoHost [''x'', ''y''] 2 2 0 (''t'', constructor) = (''t'', constructor)"
proof -
  have ne: "[VString ''a'', VString ''did:elsewhere''] \<noteq> []" by simp
  have m: "\<not> truthy (map_of (fragmentRegistry (state constructor)) (slice [''x'', ''y''] 0 (0 + 2 - 1)))"
    by (simp add: constructor_def)
  show ?thesis
    using ingestSequence_raises_iff_empty
            [of demoHost constructor "[VString ''a'', VString ''did:elsewhere'']" constructor
                "[''x'', ''y'']" 0 2 2 "''t''"]
          ne m
    by (auto simp: ingestSequence_def)
qed

section \<open>Atom canonicalization keys on the string form\<close>


text \<open>
  On every other value the registry is keyed by the string form as intended: two values
  with the same \<open>String\<close> form get the same identifier from consecutive
  \<open>getCanonicalAtom\<close> calls; the second call changes nothing, and when the first call
  created the atom, the stored \<open>rdf:value\<close> is the first value.
\<close>

theorem getCanonicalAtom_string_key:
  assumes "String v = String w" and own: "ownKey (String v)"
  shows "\<exists>u e1. getCanonicalAtom h e v = (u, e1) \<and> getCanonicalAtom h e1 w = (u, e1)
           \<and> (\<not> truthy (map_of (atomRegistry (state e)) (String v)) \<longrightarrow>
                 map_option rdf_value (getNode e1 u) = Some v)"
proof -
  define u where "u = fst (getCanonicalAtom h e v)"
  define e1 where "e1 = snd (getCanonicalAtom h e v)"
  have reg: "map_of (atomRegistry (state e1)) (String w) = Some u" "u \<noteq> []"
    using getCanonicalAtom_registered[of h e v] assms(1) by (simp_all add: u_def e1_def)
  have second: "getCanonicalAtom h e1 w = (u, e1)"
    using reg by (simp add: getCanonicalAtom_hit)
  have stored: "map_option rdf_value (getNode e1 u) = Some v"
    if "\<not> truthy (map_of (atomRegistry (state e)) (String v))"
    unfolding u_def e1_def getCanonicalAtom_miss[OF that]
    by (simp add: getNode_def update_conv' del: mintURI_simps)
  have first: "getCanonicalAtom h e v = (u, e1)" by (simp add: u_def e1_def)
  show ?thesis using first second stored by blast
qed

theorem getCanonicalAtom_string_key_witness:
  "String (VNumber ''1'') = String (VString ''1'')
   \<and> ownKey (String (VNumber ''1''))
   \<and> (\<exists>u e1. getCanonicalAtom demoHost constructor (VNumber ''1'') = (u, e1)
           \<and> getCanonicalAtom demoHost e1 (VString ''1'') = (u, e1)
           \<and> map_option rdf_value (getNode e1 u) = Some (VNumber ''1''))"
proof -
  have s: "String (VNumber ''1'') = String (VString ''1'')" by code_simp
  have n: "\<not> truthy (map_of (atomRegistry (state constructor)) (String (VNumber ''1'')))"
    by (simp add: constructor_def)
  have o: "ownKey (String (VNumber ''1''))"
    by (simp add: ownKey_def objectPrototypeNames_def)
  show ?thesis
    using getCanonicalAtom_string_key [OF s o, of demoHost constructor] s n o by blast
qed

section \<open>Notifications of \<open>ingestSequence\<close>\<close>

lemma concat_replicate_snoc: "concat (replicate n xs) @ xs = concat (replicate (Suc n) xs)"
  by (induction n) simp_all

lemma newAtomKeys_skip:
  "isURI (String item) \<or> truthy (map_of (atomRegistry (state e)) (String item)) \<Longrightarrow>
   newAtomKeys e (item # rest) = newAtomKeys e rest"
  by (auto simp: newAtomKeys_def)

lemma newAtomKeys_create:
  assumes n: "\<not> isURI (String item)" "\<not> truthy (map_of (atomRegistry (state e)) (String item))"
      and e1: "map_of (atomRegistry (state e1)) = (map_of (atomRegistry (state e)))(String item \<mapsto> u)"
              "u \<noteq> []"
  shows "length (newAtomKeys e (item # rest)) = Suc (length (newAtomKeys e1 rest))"
proof -
  let ?P = "\<lambda>k. \<not> isURI k \<and> \<not> truthy (map_of (atomRegistry (state e)) k)"
  let ?A = "{k \<in> set (map String rest). ?P k}"
  have "set (newAtomKeys e (item # rest)) = insert (String item) ?A"
    using n by (auto simp: newAtomKeys_def)
  moreover have "set (newAtomKeys e1 rest) = ?A - {String item}"
    using e1 by (auto simp: newAtomKeys_def)
  moreover have "finite ?A" by simp
  ultimately have "card (set (newAtomKeys e (item # rest))) = Suc (card (set (newAtomKeys e1 rest)))"
    by (simp add: card.insert_remove)
  moreover have "distinct (newAtomKeys e xs)" for e xs by (simp add: newAtomKeys_def)
  ultimately show ?thesis by (simp add: distinct_card)
qed

lemma normalizeItems_notified:
  "normalizeItems h e items = (us, e') \<Longrightarrow>
   notified e' = notified e @ concat (replicate (length (newAtomKeys e items)) (listeners e))"
proof (induction items arbitrary: e us)
  case Nil
  then show ?case by (simp add: newAtomKeys_def)
next
  case (Cons item rest)
  show ?case
  proof (cases "isURI (String item) \<or> truthy (map_of (atomRegistry (state e)) (String item))")
    case True
    then obtain us1 where r: "normalizeItems h e rest = (us1, e')"
      using Cons.prems by (auto simp: Let_def getCanonicalAtom_hit split: prod.splits if_splits)
    show ?thesis using Cons.IH[OF r] newAtomKeys_skip[OF True] by simp
  next
    case False
    define e1 where "e1 = snd (getCanonicalAtom h e item)"
    obtain us1 where r: "normalizeItems h e1 rest = (us1, e')"
      using Cons.prems False by (auto simp: Let_def e1_def split: prod.splits)
    have f: "\<not> isURI (String item)" "\<not> truthy (map_of (atomRegistry (state e)) (String item))"
      using False by simp_all
    have n1: "notified e1 = notified e @ listeners e" "listeners e1 = listeners e"
      unfolding e1_def getCanonicalAtom_miss[OF f(2)] by simp_all
    have m1: "map_of (atomRegistry (state e1))
                = (map_of (atomRegistry (state e)))(String item \<mapsto> fst (mintURI h e ''atoms''))"
      unfolding e1_def getCanonicalAtom_miss[OF f(2)]
      by (simp add: update_conv' del: mintURI_simps(1))
    have len: "length (newAtomKeys e (item # rest)) = Suc (length (newAtomKeys e1 rest))"
      by (rule newAtomKeys_create[OF f m1 mintURI_nonempty])
    show ?thesis using Cons.IH[OF r] n1 len by simp
  qed
qed




section \<open>The representation invariant\<close>

lemma trailingSegment_snoc:
  assumes "CHR ''/'' \<notin> set u"
  shows "trailingSegment (p @ CHR ''/'' # u) = u"
proof -
  have "\<And>x. x \<in> set (rev u) \<Longrightarrow> x \<noteq> CHR ''/''" using assms by auto
  then have "takeWhile (\<lambda>c. c \<noteq> CHR ''/'') (rev u @ CHR ''/'' # rev p)
               = rev u @ takeWhile (\<lambda>c. c \<noteq> CHR ''/'') (CHR ''/'' # rev p)"
    by (rule takeWhile_append2)
  then have "takeWhile (\<lambda>c. c \<noteq> CHR ''/'') (rev u @ CHR ''/'' # rev p) = rev u"
    by simp
  then show ?thesis by (simp add: trailingSegment_def)
qed

lemma trailingSegment_mint [simp]:
  "CHR ''/'' \<notin> set u \<Longrightarrow> trailingSegment (a @ CHR ''/'' # ty @ CHR ''/'' # u) = u"
  using trailingSegment_snoc[of u "a @ CHR ''/'' # ty"] by simp

lemma uniqueUUIDs_demoHost: "uniqueUUIDs demoHost"
proof -
  have "inj (\<lambda>k. replicate (Suc k) CHR ''u'')"
  proof (rule injI)
    fix x y :: nat assume "replicate (Suc x) CHR ''u'' = replicate (Suc y) CHR ''u''"
    then have "length (replicate (Suc x) CHR ''u'') = length (replicate (Suc y) CHR ''u'')"
      by (rule arg_cong)
    then show "x = y" by simp
  qed
  then show ?thesis by (simp add: uniqueUUIDs_def demoHost_def)
qed

lemma mintedBy_known: "uniqueUUIDs h \<Longrightarrow> mintedBy h e u \<Longrightarrow> known h e u"
  unfolding mintedBy_def known_def uniqueUUIDs_def by (metis injD)

lemma mintedBy_mono: "mintedBy h e u \<Longrightarrow> minted e \<le> minted e' \<Longrightarrow> mintedBy h e' u"
  unfolding mintedBy_def by (meson less_le_trans)

lemma known_mono: "known h e u \<Longrightarrow> minted e \<le> minted e' \<Longrightarrow> known h e' u"
  unfolding known_def by (meson less_le_trans)

lemma mint_mintedBy:
  "uniqueUUIDs h \<Longrightarrow> minted e' = Suc (minted e) \<Longrightarrow> mintedBy h e' (fst (mintURI h e ty))"
  unfolding mintedBy_def uniqueUUIDs_def
  by (auto intro!: exI[of _ "minted e"])

lemma mint_not_known:
  "uniqueUUIDs h \<Longrightarrow> known h e u \<Longrightarrow> u \<noteq> fst (mintURI h e ty)"
  unfolding known_def uniqueUUIDs_def
  by auto

lemma update_fresh: "k \<notin> fst ` set al \<Longrightarrow> AList.update k v al = al @ [(k, v)]"
  by (induction al) auto

lemma purge_general:
  "fold (\<lambda>(key, val) r. if val = uri then AList.delete key r else r) es r
     = filter (\<lambda>p. fst p \<notin> fst ` {q \<in> set es. snd q = uri}) r"
proof (induction es arbitrary: r)
  case Nil
  then show ?case by simp
next
  case (Cons a es)
  obtain k v where a: "a = (k, v)" by (cases a)
  show ?case
  proof (cases "v = uri")
    case True
    have "{q \<in> set (a # es). snd q = uri} = insert (k, v) {q \<in> set es. snd q = uri}"
      using True a by auto
    then show ?thesis using True a Cons.IH[of "AList.delete k r"]
      by (auto simp: AList.delete_eq intro!: filter_cong)
  next
    case False
    have "{q \<in> set (a # es). snd q = uri} = {q \<in> set es. snd q = uri}"
      using False a by auto
    then show ?thesis using False a Cons.IH[of r] by simp
  qed
qed

lemma purge_filter:
  assumes "distinct (map fst reg)"
  shows "purge uri reg = filter (\<lambda>p. snd p \<noteq> uri) reg"
proof -
  have "fst p \<notin> fst ` {q \<in> set reg. snd q = uri} \<longleftrightarrow> snd p \<noteq> uri" if "p \<in> set reg" for p
  proof
    assume "fst p \<notin> fst ` {q \<in> set reg. snd q = uri}"
    then show "snd p \<noteq> uri" using that by force
  next
    assume n: "snd p \<noteq> uri"
    show "fst p \<notin> fst ` {q \<in> set reg. snd q = uri}"
    proof
      assume "fst p \<in> fst ` {q \<in> set reg. snd q = uri}"
      then obtain q where q: "q \<in> set reg" "snd q = uri" "fst q = fst p" by auto
      then have "q = p" using assms that by (metis eq_key_imp_eq_value prod.collapse)
      then show False using q n by simp
    qed
  qed
  then show ?thesis unfolding purge_def purge_general by (auto intro!: filter_cong)
qed

lemma getAllNodes_notify [simp]: "getAllNodes (notify e) = getAllNodes e"
  by (simp add: getAllNodes_def)

lemma nodeOk_cong: "minted e' = minted e \<Longrightarrow> nodeOk h e' p = nodeOk h e p"
  by (simp add: nodeOk_def mintedBy_def)

lemma nodeOk_mono: "nodeOk h e p \<Longrightarrow> minted e \<le> minted e' \<Longrightarrow> nodeOk h e' p"
  unfolding nodeOk_def using mintedBy_mono by blast

lemma consistent_cong:
  assumes "state e' = state e" "minted e' = minted e"
  shows "consistent h e' = consistent h e"
  unfolding consistent_def getAllNodes_def assms(1) nodeOk_cong[OF assms(2)] ..

lemma consistent_notify [simp]: "consistent h (notify e) = consistent h e"
  by (rule consistent_cong) simp_all

lemma consistent_empty:
  "state e = \<lparr> atomRegistry = [], fragmentRegistry = [], nodeRepository = [] \<rparr> \<Longrightarrow> consistent h e"
  by (simp add: consistent_def getAllNodes_def)

lemma consistent_atom_entry:
  assumes "consistent h e" "(k, u) \<in> set (atomRegistry (state e))"
  shows "\<exists>n. (u, n) \<in> set (nodeRepository (state e)) \<and> isAtom n \<and> String (rdf_value n) = k \<and> u \<noteq> []"
proof -
  from assms obtain n where n: "n \<in> set (getAllNodes e)" "isAtom n" "atomEntry n = (k, u)"
    unfolding consistent_def by auto
  then obtain p where p: "p \<in> set (nodeRepository (state e))" "snd p = n"
    by (auto simp: getAllNodes_def)
  then have "nodeOk h e p" using assms(1) unfolding consistent_def by blast
  then have "fst p = u" "u \<noteq> []"
    using n(3) p(2) by (auto simp: nodeOk_def atomEntry_def mintedBy_def)
  then show ?thesis using p n by (metis atomEntry_def fst_conv prod.collapse)
qed

lemma consistent_fragment_entry:
  assumes "consistent h e" "(c, u) \<in> set (fragmentRegistry (state e))"
  shows "\<exists>n. (u, n) \<in> set (nodeRepository (state e)) \<and> isFragment n \<and> pgsl_content n = c
            \<and> pgsl_level n = length c \<and> node_id n = u \<and> u \<noteq> [] \<and> mintedBy h e u"
proof -
  from assms obtain n where n: "n \<in> set (getAllNodes e)" "isFragment n" "fragmentEntry n = (c, u)"
    unfolding consistent_def by auto
  then obtain p where p: "p \<in> set (nodeRepository (state e))" "snd p = n"
    by (auto simp: getAllNodes_def)
  then have ok: "nodeOk h e p" using assms(1) unfolding consistent_def by blast
  then have "fst p = u" "u \<noteq> []" "mintedBy h e u" "pgsl_level n = length c" "pgsl_content n = c"
            "node_id n = u"
    using n(2,3) p(2) by (auto simp: nodeOk_def fragmentEntry_def mintedBy_def)
  then show ?thesis using p n(2) by (metis prod.collapse)
qed

lemma consistent_atom_falsy:
  assumes "consistent h e" "\<not> truthy (map_of (atomRegistry (state e)) k)"
  shows "k \<notin> fst ` set (atomRegistry (state e))"
proof
  assume "k \<in> fst ` set (atomRegistry (state e))"
  then obtain u where u: "map_of (atomRegistry (state e)) k = Some u"
    by (metis domD dom_map_of_conv_image_fst)
  then have "(k, u) \<in> set (atomRegistry (state e))" by (rule map_of_SomeD)
  then have "u \<noteq> []" using consistent_atom_entry[OF assms(1)] by blast
  then show False using assms(2) u by simp
qed

lemma consistent_fragment_falsy:
  assumes "consistent h e" "\<not> truthy (map_of (fragmentRegistry (state e)) c)"
  shows "c \<notin> fst ` set (fragmentRegistry (state e))"
proof
  assume "c \<in> fst ` set (fragmentRegistry (state e))"
  then obtain u where u: "map_of (fragmentRegistry (state e)) c = Some u"
    by (metis domD dom_map_of_conv_image_fst)
  then have "(c, u) \<in> set (fragmentRegistry (state e))" by (rule map_of_SomeD)
  then have "u \<noteq> []" using consistent_fragment_entry[OF assms(1)] by blast
  then show False using assms(2) u by simp
qed

lemma consistent_fresh:
  assumes "uniqueUUIDs h" "consistent h e"
  shows "fst (mintURI h e ty) \<notin> fst ` set (nodeRepository (state e))"
proof
  assume "fst (mintURI h e ty) \<in> fst ` set (nodeRepository (state e))"
  then obtain p where p: "p \<in> set (nodeRepository (state e))" "fst p = fst (mintURI h e ty)"
    by auto
  then have "mintedBy h e (fst p)" using assms(2) unfolding consistent_def nodeOk_def by blast
  then have "known h e (fst p)" using mintedBy_known[OF assms(1)] by blast
  then show False using mint_not_known[OF assms(1)] p(2) by blast
qed

text \<open>Adding a fresh node with its registry entry keeps the invariant.\<close>

lemma consistent_add:
  assumes u: "uniqueUUIDs h" and c: "consistent h e"
      and m: "minted e' = Suc (minted e)"
      and ok: "nodeOk h e' (uri, node)"
      and uri: "uri = fst (mintURI h e ty)"
      and repo: "nodeRepository (state e') = AList.update uri node (nodeRepository (state e))"
      and ar: "atomRegistry (state e') =
                 (if isAtom node then AList.update (String (rdf_value node)) uri (atomRegistry (state e))
                  else atomRegistry (state e))"
      and fr: "fragmentRegistry (state e') =
                 (if isFragment node then AList.update (pgsl_content node) uri (fragmentRegistry (state e))
                  else fragmentRegistry (state e))"
      and ka: "isAtom node \<Longrightarrow> \<not> truthy (map_of (atomRegistry (state e)) (String (rdf_value node)))"
      and kf: "isFragment node \<Longrightarrow> \<not> truthy (map_of (fragmentRegistry (state e)) (pgsl_content node))"
  shows "consistent h e'"
proof -
  have fresh: "uri \<notin> fst ` set (nodeRepository (state e))"
    unfolding uri by (rule consistent_fresh[OF u c])
  have repo': "nodeRepository (state e') = nodeRepository (state e) @ [(uri, node)]"
    unfolding repo by (rule update_fresh[OF fresh])
  have nodes: "getAllNodes e' = getAllNodes e @ [node]"
    by (simp add: getAllNodes_def repo')
  have id: "node_id node = uri" using ok by (simp add: nodeOk_def)
  have af: "isAtom node \<noteq> isFragment node" by (cases node) simp_all
  have 1: "\<forall>p\<in>set (nodeRepository (state e')). nodeOk h e' p"
    using c ok nodeOk_mono[of h e _ e'] m unfolding consistent_def repo' by auto
  have 2: "distinct (map fst (nodeRepository (state e')))"
    using c fresh unfolding consistent_def repo' by simp
  have 3: "atomRegistry (state e') = map atomEntry (filter isAtom (getAllNodes e'))"
  proof (cases "isAtom node")
    case True
    have "atomRegistry (state e') = atomRegistry (state e) @ [(String (rdf_value node), uri)]"
      using True ar update_fresh[OF consistent_atom_falsy[OF c ka[OF True]]] by simp
    then show ?thesis using c True id unfolding consistent_def nodes by (simp add: atomEntry_def)
  next
    case False
    then show ?thesis using c ar unfolding consistent_def nodes by simp
  qed
  have 4: "fragmentRegistry (state e') = map fragmentEntry (filter isFragment (getAllNodes e'))"
  proof (cases "isFragment node")
    case True
    have "fragmentRegistry (state e') = fragmentRegistry (state e) @ [(pgsl_content node, uri)]"
      using True fr update_fresh[OF consistent_fragment_falsy[OF c kf[OF True]]] by simp
    then show ?thesis using c True id unfolding consistent_def nodes by (simp add: fragmentEntry_def)
  next
    case False
    then show ?thesis using c fr unfolding consistent_def nodes by simp
  qed
  have da: "distinct (map fst (atomRegistry (state e)))"
   and df: "distinct (map fst (fragmentRegistry (state e)))"
    using c unfolding consistent_def by blast+
  have 5: "distinct (map fst (atomRegistry (state e')))"
    unfolding ar using da by (simp add: distinct_update)
  have 6: "distinct (map fst (fragmentRegistry (state e')))"
    unfolding fr using df by (simp add: distinct_update)
  show ?thesis unfolding consistent_def using 1 2 3 4 5 6 by blast
qed

lemma consistent_getCanonicalAtom:
  assumes "uniqueUUIDs h" "consistent h e"
  shows "consistent h (snd (getCanonicalAtom h e v))"
proof (cases "truthy (map_of (atomRegistry (state e)) (String v))")
  case True
  then show ?thesis using assms by (simp add: getCanonicalAtom_hit)
next
  case False
  let ?u = "fst (mintURI h e ''atoms'')"
  let ?n = "AtomNode ?u v (agent e) (toISOString h (minted e))"
  let ?e = "putAtomKey (String v) ?u (putNode ?u ?n (snd (mintURI h e ''atoms'')))"
  have "consistent h ?e"
  proof (rule consistent_add[OF assms, where uri = ?u and node = ?n and ty = "''atoms''"])
    show "nodeOk h ?e (?u, ?n)"
      using mint_mintedBy[OF assms(1), of ?e e "''atoms''"] by (simp add: nodeOk_def del: mintURI_simps(1))
  qed (simp_all add: False del: mintURI_simps(1))
  then show ?thesis by (simp add: getCanonicalAtom_miss[OF False] del: mintURI_simps(1))
qed

lemma consistent_getCanonicalFragment:
  assumes "uniqueUUIDs h" "consistent h e"
      and cs: "\<And>l r. cs = Some (l, r) \<Longrightarrow> l \<noteq> [] \<and> r \<noteq> []"
  shows "consistent h (snd (getCanonicalFragment h e c cs))"
proof (cases "truthy (map_of (fragmentRegistry (state e)) c)")
  case True
  then show ?thesis using assms by (simp add: getCanonicalFragment_hit)
next
  case False
  let ?u = "fst (mintURI h e ''fragments'')"
  let ?n = "FragmentNode ?u (length c) (newHeight e c cs) c cs (agent e) (toISOString h (minted e))"
  let ?e = "putFragmentKey c ?u (putNode ?u ?n (snd (mintURI h e ''fragments'')))"
  have "consistent h ?e"
  proof (rule consistent_add[OF assms(1,2), where uri = ?u and node = ?n and ty = "''fragments''"])
    show "nodeOk h ?e (?u, ?n)"
      using mint_mintedBy[OF assms(1), of ?e e "''fragments''"] cs
      by (simp add: nodeOk_def del: mintURI_simps(1))
  qed (simp_all add: False del: mintURI_simps(1))
  then show ?thesis by (simp add: getCanonicalFragment_miss[OF False] del: mintURI_simps(1))
qed

subsection \<open>Invariants through \<open>ingestSequence\<close>\<close>

text \<open>
  A property \<open>I\<close> of the engine that the two canonicalization functions and \<open>notify\<close>
  preserve is preserved by \<open>ingestSequence\<close>. \<open>G e u\<close> is what \<open>I\<close> needs to know about a
  base URI \<open>u\<close>: it must hold of the references among the items and of the atoms created.
\<close>

lemma fold_invariant:
  "(\<And>x s. P s \<Longrightarrow> P (f x s)) \<Longrightarrow> P s \<Longrightarrow> P (fold f xs s)"
  by (induction xs arbitrary: s) simp_all

lemma ingestSequence_invariant:
  fixes I :: "PGSLEngine \<Rightarrow> bool" and G :: "PGSLEngine \<Rightarrow> URI \<Rightarrow> bool"
  assumes atomI: "\<And>e v. I e \<Longrightarrow> I (snd (getCanonicalAtom h e v))
                              \<and> G (snd (getCanonicalAtom h e v)) (fst (getCanonicalAtom h e v))"
      and atomG: "\<And>e v u. G e u \<Longrightarrow> G (snd (getCanonicalAtom h e v)) u"
      and fragG: "\<And>e c cs u. G e u \<Longrightarrow> G (snd (getCanonicalFragment h e c cs)) u"
      and fragI: "\<And>e c cs. I e \<Longrightarrow> (\<forall>u\<in>set c. G e u) \<Longrightarrow> (cs = None \<longrightarrow> c \<noteq> []) \<Longrightarrow>
                    (\<forall>l r. cs = Some (l, r) \<longrightarrow>
                       l \<in> snd ` set (fragmentRegistry (state e)) \<and> l \<noteq> []
                     \<and> r \<in> snd ` set (fragmentRegistry (state e)) \<and> r \<noteq> []) \<Longrightarrow>
                    I (snd (getCanonicalFragment h e c cs))"
      and notifyI: "\<And>e. I e \<Longrightarrow> I (notify e)"
      and I: "I e"
      and G: "\<forall>item\<in>set items. isURI (String item) \<longrightarrow> G e (String item)"
  shows "I (snd (ingestSequence h e items))"
proof (cases "items = []")
  case True
  then show ?thesis using I by (simp add: ingestSequence_def)
next
  case False
  have norm: "I e \<Longrightarrow> (\<forall>item\<in>set its. isURI (String item) \<longrightarrow> G e (String item)) \<Longrightarrow>
              I (snd (normalizeItems h e its)) \<and>
              (\<forall>u\<in>set (fst (normalizeItems h e its)). G (snd (normalizeItems h e its)) u)
              \<and> (\<forall>u. G e u \<longrightarrow> G (snd (normalizeItems h e its)) u)" for e its
  proof (induction its arbitrary: e)
    case Nil
    then show ?case by simp
  next
    case (Cons item rest)
    show ?case
    proof (cases "isURI (String item)")
      case True
      have ih: "I (snd (normalizeItems h e rest)) \<and>
              (\<forall>u\<in>set (fst (normalizeItems h e rest)). G (snd (normalizeItems h e rest)) u)
              \<and> (\<forall>u. G e u \<longrightarrow> G (snd (normalizeItems h e rest)) u)"
        using Cons.IH[of e] Cons.prems by simp
      then show ?thesis using True Cons.prems(2) by (simp add: Let_def split_beta)
    next
      case False
      let ?e1 = "snd (getCanonicalAtom h e item)"
      have i1: "I ?e1" "G ?e1 (fst (getCanonicalAtom h e item))"
        using atomI[OF Cons.prems(1)] by blast+
      have g1: "\<forall>item\<in>set rest. isURI (String item) \<longrightarrow> G ?e1 (String item)"
        using Cons.prems(2) atomG by simp
      note ih = Cons.IH[OF i1(1) g1]
      show ?thesis using False ih i1(2) atomG by (simp add: Let_def split_beta)
    qed
  qed
  have wrap: "I e \<Longrightarrow> (\<forall>u\<in>set us. G e u) \<Longrightarrow>
              I (snd (wrapAll h e us)) \<and> (\<forall>u. G e u \<longrightarrow> G (snd (wrapAll h e us)) u)" for e us
  proof (induction us arbitrary: e)
    case Nil
    then show ?case by simp
  next
    case (Cons b rest)
    let ?e1 = "snd (getCanonicalFragment h e [b] None)"
    have i1: "I ?e1" using fragI[OF Cons.prems(1), of "[b]" None] Cons.prems(2) by simp
    have g1: "\<forall>u\<in>set rest. G ?e1 u" using Cons.prems(2) fragG by simp
    note ih = Cons.IH[OF i1 g1]
    show ?case using ih fragG by (simp add: Let_def split_beta)
  qed
  have step: "I (snd s) \<and> (\<forall>u\<in>set us. G (snd s) u) \<Longrightarrow>
              I (snd (buildStep h us N len i s)) \<and> (\<forall>u\<in>set us. G (snd (buildStep h us N len i s)) u)"
    for s us N len i
  proof -
    assume a: "I (snd s) \<and> (\<forall>u\<in>set us. G (snd s) u)"
    obtain t e0 where s: "s = (t, e0)" by (cases s)
    let ?l = "map_of (fragmentRegistry (state e0)) (slice us i (i + len - 1))"
    let ?r = "map_of (fragmentRegistry (state e0)) (slice us (i + 1) (i + len))"
    show ?thesis
    proof (cases "truthy ?l \<and> truthy ?r")
      case False
      then have "buildStep h us N len i s = s" unfolding s buildStep_def by (auto simp: Let_def)
      then show ?thesis using a by simp
    next
      case True
      let ?c = "slice us i (i + len)"
      let ?cs = "Some (the ?l, the ?r)"
      have sn: "snd (buildStep h us N len i s) = snd (getCanonicalFragment h e0 ?c ?cs)"
        using True unfolding s buildStep_def by (simp add: Let_def split_beta)
      have sub: "\<forall>u\<in>set ?c. G e0 u"
        using a s by (auto simp: slice_def dest!: in_set_takeD in_set_dropD)
      have lr: "the ?l \<in> snd ` set (fragmentRegistry (state e0)) \<and> the ?l \<noteq> []
              \<and> the ?r \<in> snd ` set (fragmentRegistry (state e0)) \<and> the ?r \<noteq> []"
        using True truthy_Some_the[of ?l] truthy_Some_the[of ?r]
        by (metis map_of_SomeD snd_conv image_eqI)
      have "I (snd (getCanonicalFragment h e0 ?c ?cs))"
        using fragI[of e0 ?c ?cs] a s sub lr by simp
      then show ?thesis unfolding sn using a s fragG by simp
    qed
  qed
  obtain us ea where n: "normalizeItems h e items = (us, ea)"
    by (cases "normalizeItems h e items")
  obtain ws eb where w: "wrapAll h ea us = (ws, eb)"
    by (cases "wrapAll h ea us")
  have a: "I ea" "\<forall>u\<in>set us. G ea u" using norm[OF I G] n by simp_all
  have b: "I eb" "\<forall>u\<in>set us. G eb u" using wrap[OF a] w a(2) by simp_all
  let ?s = "buildLattice h us (length us) (ws ! 0, eb)"
  have "I (snd ?s) \<and> (\<forall>u\<in>set us. G (snd ?s) u)"
    unfolding buildLattice_def
  proof (rule fold_invariant[where P = "\<lambda>s :: URI \<times> PGSLEngine. I (snd s) \<and> (\<forall>u\<in>set us. G (snd s) u)"])
    fix len and s :: "URI \<times> PGSLEngine"
    assume p: "I (snd s) \<and> (\<forall>u\<in>set us. G (snd s) u)"
    have st: "\<And>i (s :: URI \<times> PGSLEngine). I (snd s) \<and> (\<forall>u\<in>set us. G (snd s) u) \<Longrightarrow>
               I (snd (buildStep h us (length us) len i s))
             \<and> (\<forall>u\<in>set us. G (snd (buildStep h us (length us) len i s)) u)"
      by (rule step)
    show "I (snd (buildLevel h us (length us) len s))
             \<and> (\<forall>u\<in>set us. G (snd (buildLevel h us (length us) len s)) u)"
      unfolding buildLevel_def
      using fold_invariant[where P = "\<lambda>s :: URI \<times> PGSLEngine. I (snd s) \<and> (\<forall>u\<in>set us. G (snd s) u)"
                             and f = "buildStep h us (length us) len", OF st p] .
  next
    show "I (snd (ws ! 0, eb)) \<and> (\<forall>u\<in>set us. G (snd (ws ! 0, eb)) u)" using b by simp
  qed
  then have c: "I (snd ?s)" by blast
  have "snd (ingestSequence h e items) = notify eb \<or> snd (ingestSequence h e items) = notify (snd ?s)"
    using False n w by (simp add: ingestSequence_def Let_def split_beta)
  then show ?thesis using b(1) c notifyI by auto
qed

subsection \<open>Deletion, reset and configuration keep the invariant\<close>

lemma purge_atomEntries:
  assumes "\<forall>p\<in>set al. node_id (snd p) = fst p"
  shows "filter (\<lambda>p. snd p \<noteq> uri) (map atomEntry (filter isAtom (map snd al)))
           = map atomEntry (filter isAtom (map snd (AList.delete uri al)))"
  using assms by (induction al) (auto simp: atomEntry_def)

lemma purge_fragmentEntries:
  assumes "\<forall>p\<in>set al. node_id (snd p) = fst p"
  shows "filter (\<lambda>p. snd p \<noteq> uri) (map fragmentEntry (filter isFragment (map snd al)))
           = map fragmentEntry (filter isFragment (map snd (AList.delete uri al)))"
  using assms by (induction al) (auto simp: fragmentEntry_def)

lemma deleteNode_state:
  assumes "consistent h e"
  shows "state (deleteNode e uri) =
           \<lparr> atomRegistry = filter (\<lambda>p. snd p \<noteq> uri) (atomRegistry (state e)),
             fragmentRegistry = filter (\<lambda>p. snd p \<noteq> uri) (fragmentRegistry (state e)),
             nodeRepository = AList.delete uri (nodeRepository (state e)) \<rparr>"
proof -
  have "distinct (map fst (atomRegistry (state e)))" "distinct (map fst (fragmentRegistry (state e)))"
    using assms unfolding consistent_def by blast+
  then show ?thesis by (simp add: deleteNode_def purge_filter)
qed

lemma deleteNode_simps [simp]:
  "minted (deleteNode e uri) = minted e" "listeners (deleteNode e uri) = listeners e"
  "notified (deleteNode e uri) = notified e @ listeners e"
  "authority (deleteNode e uri) = authority e" "agent (deleteNode e uri) = agent e"
  by (simp_all add: deleteNode_def)

lemma consistent_deleteNode:
  assumes c: "consistent h e"
  shows "consistent h (deleteNode e uri)"
proof -
  let ?e = "deleteNode e uri"
  note st = deleteNode_state[OF c, of uri]
  have ids: "\<forall>p\<in>set (nodeRepository (state e)). node_id (snd p) = fst p"
    using c unfolding consistent_def nodeOk_def by blast
  have ar: "atomRegistry (state e) = map atomEntry (filter isAtom (map snd (nodeRepository (state e))))"
   and fr: "fragmentRegistry (state e) = map fragmentEntry (filter isFragment (map snd (nodeRepository (state e))))"
   and da: "distinct (map fst (atomRegistry (state e)))"
   and df: "distinct (map fst (fragmentRegistry (state e)))"
   and dr: "distinct (map fst (nodeRepository (state e)))"
   and ok: "\<forall>p\<in>set (nodeRepository (state e)). nodeOk h e p"
    using c unfolding consistent_def getAllNodes_def by blast+
  have 1: "\<forall>p\<in>set (nodeRepository (state ?e)). nodeOk h ?e p"
    using ok nodeOk_cong[of ?e e h] by (auto simp: st AList.delete_eq)
  have 2: "distinct (map fst (nodeRepository (state ?e)))"
    using dr by (simp add: st distinct_delete)
  have 3: "atomRegistry (state ?e) = map atomEntry (filter isAtom (getAllNodes ?e))"
    unfolding getAllNodes_def st using purge_atomEntries[OF ids, of uri] ar by simp
  have 4: "fragmentRegistry (state ?e) = map fragmentEntry (filter isFragment (getAllNodes ?e))"
    unfolding getAllNodes_def st using purge_fragmentEntries[OF ids, of uri] fr by simp
  have 5: "distinct (map fst (atomRegistry (state ?e)))"
    unfolding st using da by (simp add: distinct_map_filter)
  have 6: "distinct (map fst (fragmentRegistry (state ?e)))"
    unfolding st using df by (simp add: distinct_map_filter)
  show ?thesis unfolding consistent_def using 1 2 3 4 5 6 by blast
qed

lemma consistent_reset: "consistent h (reset e)"
  by (rule consistent_empty) (simp add: reset_def)

lemma consistent_config [simp]:
  "consistent h (setFederationConfig e auth ag) = consistent h e"
  "consistent h (subscribe e l) = consistent h e"
  "consistent h (unsubscribe e l) = consistent h e"
  by (rule consistent_cong; simp add: setFederationConfig_def subscribe_def unsubscribe_def)+

lemma consistent_ingestSequence:
  assumes u: "uniqueUUIDs h" and c: "consistent h e"
  shows "consistent h (snd (ingestSequence h e items))"
proof (rule ingestSequence_invariant[where I = "consistent h" and G = "\<lambda>_ _. True"])
  show "consistent h e" by (rule c)
qed (simp_all add: consistent_getCanonicalAtom[OF u] consistent_getCanonicalFragment[OF u])

lemma reachable_consistent:
  assumes "uniqueUUIDs h" "reachable h e"
  shows "consistent h e"
  using assms(2)
proof (induction rule: reachable.induct)
  case r_new
  show ?case by (rule consistent_empty) (simp add: constructor_def)
qed (simp_all add: consistent_getCanonicalAtom[OF assms(1)] consistent_ingestSequence[OF assms(1)]
       consistent_deleteNode consistent_reset)

section \<open>Registries and repository agree (R1)\<close>

lemma filter_unique:
  "distinct (map f xs) \<Longrightarrow> x \<in> set xs \<Longrightarrow> length (filter (\<lambda>y. f y = f x) xs) = 1"
proof (induction xs)
  case Nil
  then show ?case by simp
next
  case (Cons a xs)
  show ?case
  proof (cases "f a = f x")
    case True
    then have "\<forall>y\<in>set xs. f y \<noteq> f x" using Cons.prems(1) by (force simp: image_iff)
    then have "filter (\<lambda>y. f y = f x) xs = []" by (simp add: filter_empty_conv)
    then show ?thesis using True by simp
  next
    case False
    then have "x \<in> set xs" using Cons.prems(2) by auto
    then show ?thesis using Cons False by simp
  qed
qed

lemma consistent_ids:
  assumes "consistent h e"
  shows "map node_id (getAllNodes e) = map fst (nodeRepository (state e))"
    and "distinct (map node_id (getAllNodes e))"
proof -
  have "\<forall>p\<in>set (nodeRepository (state e)). node_id (snd p) = fst p"
    using assms unfolding consistent_def nodeOk_def by blast
  then show 1: "map node_id (getAllNodes e) = map fst (nodeRepository (state e))"
    by (simp add: getAllNodes_def)
  show "distinct (map node_id (getAllNodes e))"
    unfolding 1 using assms unfolding consistent_def by blast
qed

lemma consistent_getNode:
  assumes "consistent h e" "(u, n) \<in> set (nodeRepository (state e))"
  shows "getNode e u = Some n"
  unfolding getNode_def using assms unfolding consistent_def by (simp add: map_of_is_SomeI)

lemma consistent_R1:
  assumes c: "consistent h e"
  shows "R1 e"
proof -
  have ar: "atomRegistry (state e) = map atomEntry (filter isAtom (getAllNodes e))"
   and fr: "fragmentRegistry (state e) = map fragmentEntry (filter isFragment (getAllNodes e))"
    using c unfolding consistent_def by blast+
  have da: "distinct (map node_id (filter isAtom (getAllNodes e)))"
   and df: "distinct (map node_id (filter isFragment (getAllNodes e)))"
    using consistent_ids(2)[OF c] by (simp_all add: distinct_map_filter)
  have a1: "length (filter (\<lambda>p. snd p = node_id n) (atomRegistry (state e))) = 1"
    if "n \<in> set (getAllNodes e)" "isAtom n" for n
  proof -
    have "filter (\<lambda>p. snd p = node_id n) (atomRegistry (state e))
            = map atomEntry (filter (\<lambda>m. node_id m = node_id n) (filter isAtom (getAllNodes e)))"
      unfolding ar by (simp add: filter_map comp_def atomEntry_def)
    then show ?thesis using filter_unique[OF da, of n] that by simp
  qed
  have f1: "length (filter (\<lambda>p. snd p = node_id n) (fragmentRegistry (state e))) = 1"
    if "n \<in> set (getAllNodes e)" "isFragment n" for n
  proof -
    have "filter (\<lambda>p. snd p = node_id n) (fragmentRegistry (state e))
            = map fragmentEntry (filter (\<lambda>m. node_id m = node_id n) (filter isFragment (getAllNodes e)))"
      unfolding fr by (simp add: filter_map comp_def fragmentEntry_def)
    then show ?thesis using filter_unique[OF df, of n] that by simp
  qed
  have a2: "\<exists>n. getNode e (snd p) = Some n \<and> node_id n = snd p \<and> isAtom n"
    if pin: "p \<in> set (atomRegistry (state e))" for p
  proof -
    obtain n where n: "(snd p, n) \<in> set (nodeRepository (state e))" "isAtom n"
      using consistent_atom_entry[OF c, of "fst p" "snd p"] pin by auto
    have "node_id n = snd p" using c n(1) unfolding consistent_def nodeOk_def by force
    then show ?thesis using consistent_getNode[OF c n(1)] n(2) by blast
  qed
  have f2: "\<exists>n. getNode e (snd p) = Some n \<and> node_id n = snd p \<and> isFragment n"
    if pin: "p \<in> set (fragmentRegistry (state e))" for p
  proof -
    obtain n where n: "(snd p, n) \<in> set (nodeRepository (state e))" "isFragment n" "node_id n = snd p"
      using consistent_fragment_entry[OF c, of "fst p" "snd p"] pin by auto
    then show ?thesis using consistent_getNode[OF c n(1)] by blast
  qed
  show ?thesis unfolding R1_def using a1 f1 a2 f2 by blast
qed

text \<open>
  C9. Invariant R1 holds in every state the public operations reach from a new engine,
  given that the host never repeats a UUID.
\<close>

theorem reachable_R1:
  assumes "uniqueUUIDs h" "reachable h e"
  shows "R1 e"
  by (rule consistent_R1[OF reachable_consistent[OF assms]])

theorem reachable_R1_witness:
  "uniqueUUIDs demoHost
   \<and> reachable demoHost (deleteNode (snd (ingestSequence demoHost constructor [VString ''a'', VString ''b''])) ''http://localhost:3000/atoms/u'')
   \<and> R1 (deleteNode (snd (ingestSequence demoHost constructor [VString ''a'', VString ''b''])) ''http://localhost:3000/atoms/u'')"
proof -
  have r: "reachable demoHost (deleteNode (snd (ingestSequence demoHost constructor [VString ''a'', VString ''b''])) ''http://localhost:3000/atoms/u'')"
    by (intro reachable.intros)
  show ?thesis using reachable_R1 [OF uniqueUUIDs_demoHost r] uniqueUUIDs_demoHost r by blast
qed

section \<open>Deletion\<close>


text \<open>
  On every other identifier deletion is exact. After \<open>deleteNode e uri\<close> in a reachable
  state: the node is absent, no registry entry maps to the URI, every other repository and
  registry entry is unchanged and in place, and when the URI was not present the state is
  unchanged while the listeners are still notified once.
\<close>

theorem deleteNode_frame:
  assumes "uniqueUUIDs h" "reachable h e" and own: "ownKey uri"
  shows "getNode (deleteNode e uri) uri = None
       \<and> uri \<notin> snd ` set (atomRegistry (state (deleteNode e uri)))
       \<and> uri \<notin> snd ` set (fragmentRegistry (state (deleteNode e uri)))
       \<and> nodeRepository (state (deleteNode e uri)) = filter (\<lambda>p. fst p \<noteq> uri) (nodeRepository (state e))
       \<and> atomRegistry (state (deleteNode e uri)) = filter (\<lambda>p. snd p \<noteq> uri) (atomRegistry (state e))
       \<and> fragmentRegistry (state (deleteNode e uri)) = filter (\<lambda>p. snd p \<noteq> uri) (fragmentRegistry (state e))
       \<and> (\<forall>u. u \<noteq> uri \<longrightarrow> getNode (deleteNode e uri) u = getNode e u)
       \<and> (getNode e uri = None \<longrightarrow> state (deleteNode e uri) = state e)
       \<and> notified (deleteNode e uri) = notified e @ listeners e"
proof -
  have c: "consistent h e" by (rule reachable_consistent[OF assms(1,2)])
  note st = deleteNode_state[OF c, of uri]
  have del: "AList.delete uri (nodeRepository (state e)) = filter (\<lambda>p. fst p \<noteq> uri) (nodeRepository (state e))"
    by (auto simp: AList.delete_eq intro!: filter_cong)
  have absent: "state (deleteNode e uri) = state e" if n: "getNode e uri = None"
  proof -
    have k: "uri \<notin> fst ` set (nodeRepository (state e))"
      using n by (simp add: getNode_def map_of_eq_None_iff)
    have "\<forall>p\<in>set (atomRegistry (state e)). snd p \<noteq> uri"
      using consistent_atom_entry[OF c] k by (metis fst_conv image_eqI prod.collapse)
    moreover have "\<forall>p\<in>set (fragmentRegistry (state e)). snd p \<noteq> uri"
      using consistent_fragment_entry[OF c] k by (metis fst_conv image_eqI prod.collapse)
    ultimately show ?thesis using k by (simp add: st)
  qed
  have 1: "getNode (deleteNode e uri) uri = None"
    by (simp add: getNode_def st delete_conv')
  have 2: "\<forall>u. u \<noteq> uri \<longrightarrow> getNode (deleteNode e uri) u = getNode e u"
    by (simp add: getNode_def st)
  show ?thesis using 1 2 absent by (auto simp: st del)
qed

theorem deleteNode_frame_witness:
  "uniqueUUIDs demoHost
   \<and> reachable demoHost (snd (ingestSequence demoHost constructor [VString ''a'']))
   \<and> ownKey ''http://localhost:3000/atoms/u''
   \<and> getNode (deleteNode (snd (ingestSequence demoHost constructor [VString ''a''])) ''http://localhost:3000/atoms/u'')
       ''http://localhost:3000/atoms/u'' = None
   \<and> getNode (snd (ingestSequence demoHost constructor [VString ''a''])) ''http://localhost:3000/atoms/u'' \<noteq> None"
proof -
  have r: "reachable demoHost (snd (ingestSequence demoHost constructor [VString ''a'']))"
    by (intro reachable.intros)
  have n: "getNode (snd (ingestSequence demoHost constructor [VString ''a''])) ''http://localhost:3000/atoms/u'' \<noteq> None"
    by code_simp
  have o: "ownKey ''http://localhost:3000/atoms/u''"
    by (rule ownKey_slash) simp
  show ?thesis
    using deleteNode_frame [OF uniqueUUIDs_demoHost r o]
      uniqueUUIDs_demoHost r n o by blast
qed

section \<open>Neighbor and parent queries agree\<close>

lemma scanParent_Some:
  "scanParent sl sr nodes = Some P \<Longrightarrow>
   \<exists>node\<in>set nodes. isFragment node \<and> pgsl_constituents node = Some (sl, sr) \<and> node_id node = P"
  by (induction nodes) (auto split: if_splits)

lemma scanNeighbors_right:
  "node \<in> set nodes \<Longrightarrow> isFragment node \<Longrightarrow> pgsl_constituents node = Some (target, c1) \<Longrightarrow>
   c1 \<noteq> [] \<Longrightarrow> (demoteToAtom e c1, node_id node) \<in> set (scanNeighbors e target DirRight nodes)"
  by (induction nodes) (auto simp: Let_def)

lemma scanNeighbors_left:
  "node \<in> set nodes \<Longrightarrow> isFragment node \<Longrightarrow> pgsl_constituents node = Some (c0, target) \<Longrightarrow>
   c0 \<noteq> [] \<Longrightarrow> (demoteToAtom e c0, node_id node) \<in> set (scanNeighbors e target DirLeft nodes)"
  by (induction nodes) (auto simp: Let_def)

lemma atom_not_fragment: "isAtom n \<Longrightarrow> \<not> isFragment n"
  by (cases n) simp_all

lemma demote_promote:
  assumes c: "consistent h e"
  shows "demoteToAtom e (promoteToStructural e uri) = demoteToAtom e uri"
proof (cases "getNode e uri")
  case None
  then show ?thesis by (simp add: promoteToStructural_def)
next
  case (Some node)
  show ?thesis
  proof (cases "isAtom node \<and> truthy (getFragmentUri e [uri])")
    case False
    then show ?thesis using Some by (auto simp: promoteToStructural_def Let_def)
  next
    case True
    then obtain w where w: "map_of (fragmentRegistry (state e)) [uri] = Some w"
      using truthy_Some_the[of "getFragmentUri e [uri]"] by (auto simp: getFragmentUri_def)
    then have p: "promoteToStructural e uri = w"
      using True Some by (simp add: promoteToStructural_def Let_def getFragmentUri_def)
    obtain n where n: "(w, n) \<in> set (nodeRepository (state e))" "isFragment n"
        "pgsl_content n = [uri]" "pgsl_level n = length [uri]"
      using consistent_fragment_entry[OF c map_of_SomeD[OF w]] by blast
    have "getNode e w = Some n" by (rule consistent_getNode[OF c n(1)])
    then have "demoteToAtom e w = uri" using n by (simp add: demoteToAtom_def)
    moreover have "demoteToAtom e uri = uri"
      using Some True atom_not_fragment by (simp add: demoteToAtom_def)
    ultimately show ?thesis using p by simp
  qed
qed

lemma consistent_constituents:
  assumes "consistent h e" "node \<in> set (getAllNodes e)" "isFragment node"
          "pgsl_constituents node = Some (l, r)"
  shows "l \<noteq> [] \<and> r \<noteq> []"
proof -
  obtain p where "p \<in> set (nodeRepository (state e))" "snd p = node"
    using assms(2) by (auto simp: getAllNodes_def)
  then have "nodeOk h e p" using assms(1) unfolding consistent_def by blast
  then show ?thesis using assms(3,4) \<open>snd p = node\<close> unfolding nodeOk_def by blast
qed

text \<open>
  C5. In a reachable state, if \<open>findParentNode L R\<close> returns \<open>P\<close>, then the right neighbors
  of \<open>L\<close> contain \<open>P\<close> with the demoted form of \<open>R\<close>, and the left neighbors of \<open>R\<close> contain \<open>P\<close>
  with the demoted form of \<open>L\<close>.
\<close>

theorem findParentNode_findNeighbors:
  assumes "uniqueUUIDs h" "reachable h e" "findParentNode e L R = Some P"
  shows "(demoteToAtom e R, P) \<in> set (findNeighbors e L DirRight)
       \<and> (demoteToAtom e L, P) \<in> set (findNeighbors e R DirLeft)"
proof -
  have c: "consistent h e" by (rule reachable_consistent[OF assms(1,2)])
  let ?sl = "promoteToStructural e L" and ?sr = "promoteToStructural e R"
  obtain node where node: "node \<in> set (getAllNodes e)" "isFragment node"
      "pgsl_constituents node = Some (?sl, ?sr)" "node_id node = P"
    using scanParent_Some[OF assms(3)[unfolded findParentNode_def]] by blast
  have ne: "?sl \<noteq> []" "?sr \<noteq> []"
    using consistent_constituents[OF c node(1,2,3)] by simp_all
  have "(demoteToAtom e ?sr, P) \<in> set (findNeighbors e L DirRight)"
    unfolding findNeighbors_def using scanNeighbors_right[OF node(1,2,3) ne(2)] node(4) by simp
  moreover have "(demoteToAtom e ?sl, P) \<in> set (findNeighbors e R DirLeft)"
    unfolding findNeighbors_def using scanNeighbors_left[OF node(1,2,3) ne(1)] node(4) by simp
  ultimately show ?thesis by (simp add: demote_promote[OF c])
qed

theorem findParentNode_findNeighbors_witness:
  "uniqueUUIDs demoHost
   \<and> reachable demoHost (snd (ingestSequence demoHost constructor [VString ''a'', VString ''b'']))
   \<and> findParentNode (snd (ingestSequence demoHost constructor [VString ''a'', VString ''b'']))
        ''http://localhost:3000/atoms/u'' ''http://localhost:3000/atoms/uu''
       = Some ''http://localhost:3000/fragments/uuuuu''
   \<and> (''http://localhost:3000/atoms/uu'', ''http://localhost:3000/fragments/uuuuu'')
       \<in> set (findNeighbors (snd (ingestSequence demoHost constructor [VString ''a'', VString ''b'']))
                ''http://localhost:3000/atoms/u'' DirRight)"
proof -
  let ?e = "snd (ingestSequence demoHost constructor [VString ''a'', VString ''b''])"
  have r: "reachable demoHost ?e" by (intro reachable.intros)
  have p: "findParentNode ?e ''http://localhost:3000/atoms/u'' ''http://localhost:3000/atoms/uu''
             = Some ''http://localhost:3000/fragments/uuuuu''"
    by code_simp
  have d: "demoteToAtom ?e ''http://localhost:3000/atoms/uu'' = ''http://localhost:3000/atoms/uu''"
    by code_simp
  show ?thesis
    using findParentNode_findNeighbors [OF uniqueUUIDs_demoHost r p] uniqueUUIDs_demoHost r p d
    by simp
qed

section \<open>Creation order\<close>

lemma mint_trailingSegment:
  assumes "uniqueUUIDs h"
  shows "trailingSegment (fst (mintURI h e ty)) = randomUUID h (minted e)"
proof -
  have "fst (mintURI h e ty) = (authority e @ ''/'' @ ty) @ CHR ''/'' # randomUUID h (minted e)"
    by simp
  then show ?thesis
    using trailingSegment_snoc[of "randomUUID h (minted e)" "authority e @ ''/'' @ ty"] assms
    unfolding uniqueUUIDs_def by metis
qed

lemma state_config [simp]:
  "state (setFederationConfig e auth ag) = state e" "state (subscribe e l) = state e"
  "state (unsubscribe e l) = state e"
  by (simp_all add: setFederationConfig_def subscribe_def unsubscribe_def)

lemma getCanonicalAtom_minted: "minted e \<le> minted (snd (getCanonicalAtom h e v))"
  by (cases "truthy (map_of (atomRegistry (state e)) (String v))")
     (simp_all add: getCanonicalAtom_hit getCanonicalAtom_miss)

lemma getCanonicalFragment_minted: "minted e \<le> minted (snd (getCanonicalFragment h e c cs))"
  by (cases "truthy (map_of (fragmentRegistry (state e)) c)")
     (simp_all add: getCanonicalFragment_hit getCanonicalFragment_miss)

lemma getCanonicalAtom_nodes:
  assumes "uniqueUUIDs h" "consistent h e" "\<not> truthy (map_of (atomRegistry (state e)) (String v))"
  shows "getAllNodes (snd (getCanonicalAtom h e v)) =
           getAllNodes e @ [AtomNode (fst (mintURI h e ''atoms'')) v (agent e) (toISOString h (minted e))]"
  unfolding getCanonicalAtom_miss[OF assms(3)] getAllNodes_def
  using update_fresh[OF consistent_fresh[OF assms(1,2), of "''atoms''"]]
  by (simp del: mintURI_simps(1))

lemma getCanonicalFragment_nodes:
  assumes "uniqueUUIDs h" "consistent h e" "\<not> truthy (map_of (fragmentRegistry (state e)) c)"
  shows "getAllNodes (snd (getCanonicalFragment h e c cs)) =
           getAllNodes e @ [FragmentNode (fst (mintURI h e ''fragments'')) (length c) (newHeight e c cs)
                              c cs (agent e) (toISOString h (minted e))]"
  unfolding getCanonicalFragment_miss[OF assms(3)] getAllNodes_def
  using update_fresh[OF consistent_fresh[OF assms(1,2), of "''fragments''"]]
  by (simp del: mintURI_simps(1))

lemma consistent_atom_known:
  assumes u: "uniqueUUIDs h" and c: "consistent h e"
  shows "known h (snd (getCanonicalAtom h e v)) (fst (getCanonicalAtom h e v))"
proof -
  let ?e = "snd (getCanonicalAtom h e v)" and ?u = "fst (getCanonicalAtom h e v)"
  have c': "consistent h ?e" by (rule consistent_getCanonicalAtom[OF u c])
  have "(String v, ?u) \<in> set (atomRegistry (state ?e))"
    using getCanonicalAtom_registered[of h e v] by (simp add: map_of_SomeD)
  then obtain n where "(?u, n) \<in> set (nodeRepository (state ?e))"
    using consistent_atom_entry[OF c'] by blast
  then have "mintedBy h ?e ?u" using c' unfolding consistent_def nodeOk_def by force
  then show ?thesis by (rule mintedBy_known[OF u])
qed

lemma consistent_value_known:
  assumes u: "uniqueUUIDs h" and c: "consistent h e"
      and l: "l \<in> snd ` set (fragmentRegistry (state e))"
  shows "known h e l"
proof -
  obtain k where "(k, l) \<in> set (fragmentRegistry (state e))" using l by auto
  then have "mintedBy h e l" using consistent_fragment_entry[OF c] by blast
  then show ?thesis by (rule mintedBy_known[OF u])
qed

lemma ordered_cong: "state e' = state e \<Longrightarrow> ordered h e' = ordered h e"
  by (simp add: ordered_def getAllNodes_def)

lemma ordered_getCanonicalAtom:
  assumes "uniqueUUIDs h" "consistent h e" "ordered h e"
  shows "ordered h (snd (getCanonicalAtom h e v))"
proof (cases "truthy (map_of (atomRegistry (state e)) (String v))")
  case True
  then show ?thesis using assms(3) by (simp add: getCanonicalAtom_hit)
next
  case False
  show ?thesis
    using assms(3) unfolding ordered_def getCanonicalAtom_nodes[OF assms(1,2) False] by simp
qed

lemma ordered_getCanonicalFragment:
  assumes u: "uniqueUUIDs h" and c: "consistent h e" and o: "ordered h e"
      and k: "\<forall>x\<in>set content. known h e x"
  shows "ordered h (snd (getCanonicalFragment h e content cs))"
proof (cases "truthy (map_of (fragmentRegistry (state e)) content)")
  case True
  then show ?thesis using o by (simp add: getCanonicalFragment_hit)
next
  case False
  have new: "k' < k" if "x \<in> set content"
      "trailingSegment (fst (mintURI h e ''fragments'')) = randomUUID h k"
      "trailingSegment x = randomUUID h k'" for x k k'
  proof -
    have "randomUUID h (minted e) = randomUUID h k"
      using that(2) mint_trailingSegment[OF u, of e "''fragments''"] by simp
    then have "k = minted e" using u by (simp add: uniqueUUIDs_def inj_eq)
    moreover have "k' < minted e" using k that(1,3) unfolding known_def by blast
    ultimately show ?thesis by simp
  qed
  show ?thesis
    using o new unfolding ordered_def getCanonicalFragment_nodes[OF u c False]
    by (auto simp del: mintURI_simps(1))
qed

lemma ordered_deleteNode:
  assumes "consistent h e" "ordered h e"
  shows "ordered h (deleteNode e uri)"
  using assms(2) unfolding ordered_def getAllNodes_def deleteNode_state[OF assms(1)]
  by (auto simp: AList.delete_eq)

lemma ordered_ingestSequence:
  assumes u: "uniqueUUIDs h" and c: "consistent h e \<and> ordered h e" and n: "noForwardRefs h e items"
  shows "consistent h (snd (ingestSequence h e items)) \<and> ordered h (snd (ingestSequence h e items))"
proof (rule ingestSequence_invariant[where I = "\<lambda>e. consistent h e \<and> ordered h e" and G = "known h"])
  show "consistent h e \<and> ordered h e" by (rule c)
  show "\<forall>item\<in>set items. isURI (String item) \<longrightarrow> known h e (String item)"
    using n by (simp add: noForwardRefs_def)
next
  fix e v assume "consistent h e \<and> ordered h e"
  then show "(consistent h (snd (getCanonicalAtom h e v)) \<and> ordered h (snd (getCanonicalAtom h e v)))
           \<and> known h (snd (getCanonicalAtom h e v)) (fst (getCanonicalAtom h e v))"
    using consistent_getCanonicalAtom[OF u] ordered_getCanonicalAtom[OF u] consistent_atom_known[OF u]
    by blast
next
  fix e v x assume "known h e x"
  then show "known h (snd (getCanonicalAtom h e v)) x"
    using known_mono getCanonicalAtom_minted by blast
next
  fix e c cs x assume "known h e x"
  then show "known h (snd (getCanonicalFragment h e c cs)) x"
    using known_mono getCanonicalFragment_minted by blast
next
  fix e c cs
  assume a: "consistent h e \<and> ordered h e" "\<forall>x\<in>set c. known h e x"
     "\<forall>l r. cs = Some (l, r) \<longrightarrow>
         l \<in> snd ` set (fragmentRegistry (state e)) \<and> l \<noteq> [] \<and>
         r \<in> snd ` set (fragmentRegistry (state e)) \<and> r \<noteq> []"
  have "consistent h (snd (getCanonicalFragment h e c cs))"
    using consistent_getCanonicalFragment[OF u, of e cs c] a(1,3) by blast
  moreover have "ordered h (snd (getCanonicalFragment h e c cs))"
    using ordered_getCanonicalFragment[OF u _ _ a(2)] a(1) by blast
  ultimately show "consistent h (snd (getCanonicalFragment h e c cs))
                 \<and> ordered h (snd (getCanonicalFragment h e c cs))" ..
next
  fix e assume "consistent h e \<and> ordered h e"
  then show "consistent h (notify e) \<and> ordered h (notify e)"
    using ordered_cong[of "notify e" e h] by simp
qed

lemma reachableNoForward_ordered:
  assumes u: "uniqueUUIDs h" and r: "reachableNoForward h e"
  shows "consistent h e \<and> ordered h e"
  using r
proof (induction rule: reachableNoForward.induct)
  case nf_new
  show ?case
    using consistent_empty[of constructor h] by (simp add: constructor_def ordered_def getAllNodes_def)
next
  case (nf_config e auth ag)
  then show ?case using ordered_cong[of "setFederationConfig e auth ag" e h] by simp
next
  case (nf_subscribe e l)
  then show ?case using ordered_cong[of "subscribe e l" e h] by simp
next
  case (nf_unsubscribe e l)
  then show ?case using ordered_cong[of "unsubscribe e l" e h] by simp
next
  case (nf_atom e v)
  then show ?case using consistent_getCanonicalAtom[OF u] ordered_getCanonicalAtom[OF u] by blast
next
  case (nf_ingest e items)
  then show ?case using ordered_ingestSequence[OF u] by blast
next
  case (nf_delete e uri)
  then show ?case using consistent_deleteNode ordered_deleteNode by blast
next
  case (nf_reset e)
  show ?case using consistent_reset[of h e] by (simp add: ordered_def getAllNodes_def reset_def)
qed

section \<open>The string resolver\<close>

lemma those_map_mono:
  "those (map f cs) = Some xs \<Longrightarrow> (\<And>c s. c \<in> set cs \<Longrightarrow> f c = Some s \<Longrightarrow> g c = Some s) \<Longrightarrow>
   those (map g cs) = Some xs"
proof (induction cs arbitrary: xs)
  case Nil
  then show ?case by simp
next
  case (Cons c cs)
  obtain s where s: "f c = Some s" using Cons.prems(1) by (cases "f c") simp_all
  obtain ys where ys: "those (map f cs) = Some ys" and xs: "xs = s # ys"
    using Cons.prems(1) s by (cases "those (map f cs)") simp_all
  have "those (map g cs) = Some ys" using Cons.IH[OF ys] Cons.prems(2) by simp
  moreover have "g c = Some s" using Cons.prems(2)[of c s] s by simp
  ultimately show ?case using xs by simp
qed

lemma those_map_all:
  "(\<And>c. c \<in> set cs \<Longrightarrow> \<exists>s. f c = Some s) \<Longrightarrow> \<exists>xs. those (map f cs) = Some xs"
proof (induction cs)
  case Nil
  then show ?case by simp
next
  case (Cons c cs)
  obtain s where "f c = Some s" using Cons.prems[of c] by auto
  moreover obtain ys where "those (map f cs) = Some ys" using Cons.IH Cons.prems by auto
  ultimately show ?case by simp
qed

lemma resolve_atom:
  "getNode e uri = Some node \<Longrightarrow> isAtom node \<Longrightarrow>
   resolveContentString (Suc d) e uri = Some (String (rdf_value node))"
  by simp

lemma resolve_empty:
  "getNode e uri = Some node \<Longrightarrow> \<not> isAtom node \<Longrightarrow> pgsl_content node = [] \<Longrightarrow>
   resolveContentString (Suc d) e uri = Some ''()''"
  by simp

lemma resolve_single:
  "getNode e uri = Some node \<Longrightarrow> \<not> isAtom node \<Longrightarrow> pgsl_content node = [c] \<Longrightarrow>
   resolveContentString (Suc d) e uri = resolveContentString d e c"
  by simp

lemma resolve_many:
  "getNode e uri = Some node \<Longrightarrow> \<not> isAtom node \<Longrightarrow> pgsl_content node = c1 # c2 # cs \<Longrightarrow>
   resolveContentString (Suc d) e uri =
     map_option (\<lambda>inner. ''('' @ join '' '' inner @ '')'')
       (those (map (resolveContentString d e) (c1 # c2 # cs)))"
  by (simp add: Let_def)

lemma resolveContentString_Suc:
  "resolveContentString d e uri = Some s \<Longrightarrow> resolveContentString (Suc d) e uri = Some s"
proof (induction d arbitrary: uri s)
  case 0
  then show ?case by simp
next
  case (Suc d)
  show ?case
  proof (cases "getNode e uri")
    case None
    then show ?thesis using Suc.prems by simp
  next
    case (Some node)
    show ?thesis
    proof (cases "isAtom node")
      case True
      then show ?thesis using Suc.prems resolve_atom[OF Some True] by simp
    next
      case False
      show ?thesis
      proof (cases "pgsl_content node")
        case Nil
        then show ?thesis using Suc.prems resolve_empty[OF Some False Nil] by simp
      next
        case (Cons c1 rest)
        show ?thesis
        proof (cases rest)
          case Nil
          note one = Cons[unfolded Nil]
          have "resolveContentString d e c1 = Some s"
            using Suc.prems resolve_single[OF Some False one, of d] by simp
          then have "resolveContentString (Suc d) e c1 = Some s" by (rule Suc.IH)
          then show ?thesis using resolve_single[OF Some False one, of "Suc d"] by simp
        next
          case (Cons c2 cs)
          note many = \<open>pgsl_content node = c1 # rest\<close>[unfolded Cons]
          obtain xs where xs: "those (map (resolveContentString d e) (c1 # c2 # cs)) = Some xs"
              and s: "s = ''('' @ join '' '' xs @ '')''"
            using Suc.prems unfolding resolve_many[OF Some False many, of d] by auto
          have "those (map (resolveContentString (Suc d) e) (c1 # c2 # cs)) = Some xs"
            using those_map_mono[OF xs] Suc.IH by blast
          then show ?thesis unfolding resolve_many[OF Some False many, of "Suc d"] using s by simp
        qed
      qed
    qed
  qed
qed

lemma resolveContentString_mono:
  assumes "resolveContentString d e uri = Some s" "d \<le> d'"
  shows "resolveContentString d' e uri = Some s"
  using assms(2)
proof (induction rule: dec_induct)
  case base
  show ?case by (rule assms(1))
next
  case (step n)
  then show ?case by (simp only: resolveContentString_Suc)
qed

lemma resolve_uniform:
  "(\<And>c. c \<in> set cs \<Longrightarrow> \<exists>d s. resolveContentString d e c = Some s) \<Longrightarrow>
   \<exists>d. \<forall>c\<in>set cs. \<exists>s. resolveContentString d e c = Some s"
proof (induction cs)
  case Nil
  then show ?case by simp
next
  case (Cons c cs)
  obtain d1 s1 where 1: "resolveContentString d1 e c = Some s1" using Cons.prems[of c] by auto
  obtain d2 where 2: "\<forall>x\<in>set cs. \<exists>s. resolveContentString d2 e x = Some s"
    using Cons.IH Cons.prems by auto
  have "\<forall>x\<in>set (c # cs). \<exists>s. resolveContentString (max d1 d2) e x = Some s"
    using 1 2 resolveContentString_mono[of _ e _ _ "max d1 d2"]
    by (metis max.cobounded1 max.cobounded2 set_ConsD)
  then show ?case by blast
qed

lemma resolveContentString_unknown:
  "getNode e uri = None \<Longrightarrow> resolveContentString (Suc d) e uri = Some ''<?>''"
  by simp

lemma resolve_terminates:
  assumes u: "uniqueUUIDs h" and c: "consistent h e" and o: "ordered h e"
  shows "(\<forall>k. trailingSegment uri = randomUUID h k \<longrightarrow> k < K) \<Longrightarrow>
         \<exists>d s. resolveContentString d e uri = Some s"
proof (induction K arbitrary: uri)
  case 0
  have "getNode e uri = None"
  proof (cases "getNode e uri")
    case (Some n)
    then have "(uri, n) \<in> set (nodeRepository (state e))"
      by (simp add: getNode_def map_of_SomeD)
    then have "mintedBy h e uri" using c unfolding consistent_def nodeOk_def by force
    then show ?thesis using 0 unfolding mintedBy_def by blast
  qed simp
  then show ?case using resolveContentString_unknown[of e uri 0] by blast
next
  case (Suc K)
  show ?case
  proof (cases "getNode e uri")
    case None
    then show ?thesis using resolveContentString_unknown[of e uri 0] by blast
  next
    case (Some node)
    then have mem: "(uri, node) \<in> set (nodeRepository (state e))"
      by (simp add: getNode_def map_of_SomeD)
    then have ok: "nodeOk h e (uri, node)" using c unfolding consistent_def by blast
    then obtain k where k: "trailingSegment uri = randomUUID h k"
      unfolding nodeOk_def mintedBy_def by auto
    then have kK: "k \<le> K" using Suc.prems by fastforce
    have id: "node_id node = uri" using ok by (simp add: nodeOk_def)
    have nd: "node \<in> set (getAllNodes e)" using mem by (force simp: getAllNodes_def)
    let ?c = "pgsl_content node"
    show ?thesis
    proof (cases "isAtom node")
      case True
      then show ?thesis using resolve_atom[OF Some True, of 0] by blast
    next
      case False
      then have fr: "isFragment node" by (cases node) simp_all
      have each: "\<exists>d s. resolveContentString d e x = Some s" if x: "x \<in> set ?c" for x
      proof (rule Suc.IH, intro allI impI)
        fix k' assume "trailingSegment x = randomUUID h k'"
        then have "k' < k" using o nd fr x k id unfolding ordered_def by blast
        then show "k' < K" using kK by simp
      qed
      obtain d where d: "\<forall>x\<in>set ?c. \<exists>s. resolveContentString d e x = Some s"
        using resolve_uniform[of ?c e] each by blast
      show ?thesis
      proof (cases ?c)
        case Nil
        then show ?thesis using resolve_empty[OF Some False Nil, of 0] by blast
      next
        case (Cons c1 rest)
        show ?thesis
        proof (cases rest)
          case Nil
          note one = Cons[unfolded Nil]
          obtain s where "resolveContentString d e c1 = Some s" using d one by auto
          then show ?thesis using resolve_single[OF Some False one, of d] by metis
        next
          case (Cons c2 cs)
          note many = \<open>?c = c1 # rest\<close>[unfolded Cons]
          obtain xs where "those (map (resolveContentString d e) (c1 # c2 # cs)) = Some xs"
            using those_map_all[of ?c "resolveContentString d e"] d many by metis
          then show ?thesis using resolve_many[OF Some False many, of d] by (metis option.simps(9))
        qed
      qed
    qed
  qed
qed

lemma self_reference_unresolved:
  assumes "getNode e uri = Some node" "\<not> isAtom node" "pgsl_content node = [uri]"
  shows "resolveContentString d e uri = None"
proof (induction d)
  case 0
  show ?case by simp
next
  case (Suc d)
  then show ?case using resolve_single[OF assms] by simp
qed

text \<open>
  C6 as stated fails in two ways. (1) For an unknown identifier the resolver returns the
  fixed placeholder \<open><?>\<close>, which does not contain the identifier's trailing path segment.
  (2) The recursion has no guard against a cycle: when a reference names the identifier
  that the engine mints next, the wrapper of that reference is its own content, and no
  recursion depth resolves it (in JavaScript the call stack overflows and the call raises).
\<close>

theorem resolveContentString_placeholder_fixed:
  "resolveContentString 3 constructor ''http://localhost:3000/atoms/abc'' = Some ''<?>''
   \<and> trailingSegment ''http://localhost:3000/atoms/abc'' = ''abc''
   \<and> \<not> includes_js ''<?>'' (trailingSegment ''http://localhost:3000/atoms/abc'')
   \<and> (\<forall>d. resolveContentString d
          (snd (ingestSequence demoHost constructor [VString ''http://localhost:3000/fragments/u'']))
          ''http://localhost:3000/fragments/u'' = None)"
proof -
  have 1: "resolveContentString 3 constructor ''http://localhost:3000/atoms/abc'' = Some ''<?>''
   \<and> trailingSegment ''http://localhost:3000/atoms/abc'' = ''abc''
   \<and> \<not> includes_js ''<?>'' (trailingSegment ''http://localhost:3000/atoms/abc'')"
    by code_simp
  define e where "e = snd (ingestSequence demoHost constructor [VString ''http://localhost:3000/fragments/u''])"
  have g: "getNode e ''http://localhost:3000/fragments/u''
             = Some (FragmentNode ''http://localhost:3000/fragments/u'' 1 1
                       [''http://localhost:3000/fragments/u''] None ''did:web:localhost:user:default'' ''t'')"
    unfolding e_def by code_simp
  have "\<forall>d. resolveContentString d e ''http://localhost:3000/fragments/u'' = None"
    using self_reference_unresolved[OF g] by simp
  then show ?thesis using 1 unfolding e_def by blast
qed

text \<open>
  C6, amended. In every state reached without forward references (and with unique UUIDs),
  \<open>resolveContentString\<close> returns a string for every identifier that is not the name of an
  \<open>Object.prototype\<close> member: some recursion depth suffices, and every larger depth gives
  the same string. For such an identifier that does not resolve to a node the result is
  the fixed placeholder \<open><?>\<close>.
\<close>

theorem resolveContentString_total:
  assumes "uniqueUUIDs h" "reachableNoForward h e" and own: "ownKey uri"
  shows "(\<exists>d s. \<forall>d'\<ge>d. resolveContentString d' e uri = Some s)
       \<and> (getNode e uri = None \<longrightarrow> (\<forall>d. resolveContentString (Suc d) e uri = Some ''<?>''))"
proof -
  have co: "consistent h e" "ordered h e"
    using reachableNoForward_ordered[OF assms(1,2)] by blast+
  have "\<exists>K. \<forall>k. trailingSegment uri = randomUUID h k \<longrightarrow> k < K"
  proof (cases "\<exists>k. trailingSegment uri = randomUUID h k")
    case True
    then obtain k where k: "trailingSegment uri = randomUUID h k" by blast
    have "\<forall>k'. trailingSegment uri = randomUUID h k' \<longrightarrow> k' < Suc k"
      using k assms(1) unfolding uniqueUUIDs_def by (metis injD lessI)
    then show ?thesis by blast
  next
    case False
    then show ?thesis by blast
  qed
  then obtain K where "\<forall>k. trailingSegment uri = randomUUID h k \<longrightarrow> k < K" by blast
  then obtain d s where "resolveContentString d e uri = Some s"
    using resolve_terminates[OF assms(1) co] by blast
  then have "\<forall>d'\<ge>d. resolveContentString d' e uri = Some s"
    using resolveContentString_mono by blast
  then show ?thesis using resolveContentString_unknown by blast
qed

theorem resolveContentString_total_witness:
  "uniqueUUIDs demoHost
   \<and> reachableNoForward demoHost
        (snd (ingestSequence demoHost constructor [VString ''a'', VString ''http://x/y'']))
   \<and> ownKey ''http://localhost:3000/fragments/uuuu''
   \<and> (\<exists>d s. \<forall>d'\<ge>d. resolveContentString d'
          (snd (ingestSequence demoHost constructor [VString ''a'', VString ''http://x/y'']))
          ''http://localhost:3000/fragments/uuuu'' = Some s)
   \<and> resolveContentString 2
          (snd (ingestSequence demoHost constructor [VString ''a'', VString ''http://x/y'']))
          ''http://localhost:3000/fragments/uuuu'' = Some ''(a <?>)''"
proof -
  have t: "trailingSegment ''http://x/y'' = ''y''" by code_simp
  have a: "\<not> isURI ''a''" by code_simp
  have n: "noForwardRefs demoHost constructor [VString ''a'', VString ''http://x/y'']"
    by (simp add: noForwardRefs_def known_def t a demoHost_def)
  have r: "reachableNoForward demoHost
             (snd (ingestSequence demoHost constructor [VString ''a'', VString ''http://x/y'']))"
    by (rule nf_ingest[OF nf_new n])
  have v: "resolveContentString 2
          (snd (ingestSequence demoHost constructor [VString ''a'', VString ''http://x/y'']))
          ''http://localhost:3000/fragments/uuuu'' = Some ''(a <?>)''"
    by code_simp
  have o: "ownKey ''http://localhost:3000/fragments/uuuu''"
    by (rule ownKey_slash) simp
  show ?thesis
    using resolveContentString_total [OF uniqueUUIDs_demoHost r o]
      uniqueUUIDs_demoHost r v o by blast
qed

section \<open>The height law\<close>

lemma content_known:
  assumes u: "uniqueUUIDs h" and c: "consistent h e" and o: "ordered h e"
      and n: "n \<in> set (getAllNodes e)" "isFragment n" and x: "x \<in> set (pgsl_content n)"
  shows "known h e x"
proof -
  obtain p where p: "p \<in> set (nodeRepository (state e))" "snd p = n"
    using n(1) by (auto simp: getAllNodes_def)
  then have "nodeOk h e p" using c unfolding consistent_def by blast
  then obtain k where k: "k < minted e" "trailingSegment (node_id n) = randomUUID h k"
    using p(2) unfolding nodeOk_def mintedBy_def by auto
  show ?thesis unfolding known_def
  proof (intro allI impI)
    fix k' assume "trailingSegment x = randomUUID h k'"
    then have "k' < k" using o n x k(2) unfolding ordered_def by blast
    then show "k' < minted e" using k(1) by simp
  qed
qed

lemma heightOf_add:
  assumes "uniqueUUIDs h" "known h e x"
      and "nodeRepository (state e') = AList.update (fst (mintURI h e ty)) node (nodeRepository (state e))"
  shows "heightOf e' x = heightOf e x"
  using mint_not_known[OF assms(1,2), of ty] assms(3)
  by (simp add: heightOf_def getNode_def update_conv' del: mintURI_simps(1))

lemma newHeight_add:
  assumes u: "uniqueUUIDs h"
      and r: "nodeRepository (state e') = AList.update (fst (mintURI h e ty)) node (nodeRepository (state e))"
      and w: "cs = None \<longrightarrow> known h e (firstContent c)"
      and k: "\<forall>l r. cs = Some (l, r) \<longrightarrow> known h e l \<and> known h e r"
  shows "newHeight e' c cs = newHeight e c cs"
proof (cases cs)
  case None
  then show ?thesis using heightOf_add[OF u _ r] w by (simp add: newHeight_def)
next
  case (Some lr)
  obtain l r' where lr: "lr = (l, r')" by (cases lr)
  then show ?thesis using heightOf_add[OF u _ r] k Some by (simp add: newHeight_def)
qed

lemma firstContent_in: "c \<noteq> [] \<Longrightarrow> firstContent c \<in> set c"
  by (cases c) (simp_all add: firstContent_def)

lemma lawful_add:
  assumes u: "uniqueUUIDs h" and c: "consistent h e" and o: "ordered h e" and l: "lawful h e"
      and r: "nodeRepository (state e') = AList.update (fst (mintURI h e ty)) node (nodeRepository (state e))"
      and ns: "getAllNodes e' = getAllNodes e @ [node]"
      and m: "minted e \<le> minted e'"
      and new: "isFragment node \<Longrightarrow>
                  pgsl_height node = newHeight e (pgsl_content node) (pgsl_constituents node)
                \<and> (pgsl_constituents node = None \<longrightarrow> pgsl_content node \<noteq> [])
                \<and> (\<forall>x\<in>set (pgsl_content node). known h e x)
                \<and> (\<forall>l r. pgsl_constituents node = Some (l, r) \<longrightarrow> known h e l \<and> known h e r)"
  shows "lawful h e'"
  unfolding lawful_def ns
proof (intro ballI impI)
  fix n assume n: "n \<in> set (getAllNodes e @ [node])" and f: "isFragment n"
  have facts: "pgsl_height n = newHeight e (pgsl_content n) (pgsl_constituents n)"
      "pgsl_constituents n = None \<longrightarrow> pgsl_content n \<noteq> []"
      "\<forall>x\<in>set (pgsl_content n). known h e x"
      "\<forall>l r. pgsl_constituents n = Some (l, r) \<longrightarrow> known h e l \<and> known h e r"
  proof -
    consider "n \<in> set (getAllNodes e)" | "n = node" using n by auto
    then have "pgsl_height n = newHeight e (pgsl_content n) (pgsl_constituents n)
      \<and> (pgsl_constituents n = None \<longrightarrow> pgsl_content n \<noteq> [])
      \<and> (\<forall>x\<in>set (pgsl_content n). known h e x)
      \<and> (\<forall>l r. pgsl_constituents n = Some (l, r) \<longrightarrow> known h e l \<and> known h e r)"
    proof cases
      case 1
      then show ?thesis using l f content_known[OF u c o 1 f] unfolding lawful_def by blast
    next
      case 2
      then show ?thesis using new f by blast
    qed
    then show "pgsl_height n = newHeight e (pgsl_content n) (pgsl_constituents n)"
      "pgsl_constituents n = None \<longrightarrow> pgsl_content n \<noteq> []"
      "\<forall>x\<in>set (pgsl_content n). known h e x"
      "\<forall>l r. pgsl_constituents n = Some (l, r) \<longrightarrow> known h e l \<and> known h e r"
      by blast+
  qed
  have w: "pgsl_constituents n = None \<longrightarrow> known h e (firstContent (pgsl_content n))"
    using facts(2,3) firstContent_in by blast
  have "newHeight e' (pgsl_content n) (pgsl_constituents n)
          = newHeight e (pgsl_content n) (pgsl_constituents n)"
    by (rule newHeight_add[OF u r w facts(4)])
  then show "pgsl_height n = newHeight e' (pgsl_content n) (pgsl_constituents n)
      \<and> (pgsl_constituents n = None \<longrightarrow> pgsl_content n \<noteq> [])
      \<and> (\<forall>l r. pgsl_constituents n = Some (l, r) \<longrightarrow> known h e' l \<and> known h e' r)"
    using facts known_mono[OF _ m] by auto
qed

lemma lawful_cong:
  assumes "state e' = state e" "minted e' = minted e"
  shows "lawful h e' = lawful h e"
proof -
  have ho: "heightOf e' = heightOf e"
    by (rule ext) (simp add: heightOf_def getNode_def assms(1))
  have nh: "newHeight e' = newHeight e"
    unfolding newHeight_def ho ..
  have kn: "known h e' = known h e"
    by (rule ext) (simp add: known_def assms(2))
  show ?thesis unfolding lawful_def getAllNodes_def nh kn assms(1) ..
qed

lemma lawful_getCanonicalAtom:
  assumes u: "uniqueUUIDs h" and c: "consistent h e" and o: "ordered h e" and l: "lawful h e"
  shows "lawful h (snd (getCanonicalAtom h e v))"
proof (cases "truthy (map_of (atomRegistry (state e)) (String v))")
  case True
  then show ?thesis using l by (simp add: getCanonicalAtom_hit)
next
  case False
  show ?thesis
  proof (rule lawful_add[OF u c o l _ getCanonicalAtom_nodes[OF u c False] getCanonicalAtom_minted])
    show "nodeRepository (state (snd (getCanonicalAtom h e v))) =
            AList.update (fst (mintURI h e ''atoms''))
              (AtomNode (fst (mintURI h e ''atoms'')) v (agent e) (toISOString h (minted e)))
              (nodeRepository (state e))"
      by (simp add: getCanonicalAtom_miss[OF False] del: mintURI_simps(1))
  qed simp
qed

lemma lawful_getCanonicalFragment:
  assumes u: "uniqueUUIDs h" and c: "consistent h e" and o: "ordered h e" and l: "lawful h e"
      and k: "\<forall>x\<in>set content. known h e x"
      and w: "cs = None \<longrightarrow> content \<noteq> []"
      and lr: "\<forall>l r. cs = Some (l, r) \<longrightarrow>
                 l \<in> snd ` set (fragmentRegistry (state e)) \<and> r \<in> snd ` set (fragmentRegistry (state e))"
  shows "lawful h (snd (getCanonicalFragment h e content cs))"
proof (cases "truthy (map_of (fragmentRegistry (state e)) content)")
  case True
  then show ?thesis using l by (simp add: getCanonicalFragment_hit)
next
  case False
  show ?thesis
  proof (rule lawful_add[OF u c o l _ getCanonicalFragment_nodes[OF u c False] getCanonicalFragment_minted])
    show "nodeRepository (state (snd (getCanonicalFragment h e content cs))) =
            AList.update (fst (mintURI h e ''fragments''))
              (FragmentNode (fst (mintURI h e ''fragments'')) (length content) (newHeight e content cs)
                 content cs (agent e) (toISOString h (minted e)))
              (nodeRepository (state e))"
      by (simp add: getCanonicalFragment_miss[OF False] del: mintURI_simps(1))
  next
    show "pgsl_height (FragmentNode (fst (mintURI h e ''fragments'')) (length content) (newHeight e content cs)
                 content cs (agent e) (toISOString h (minted e)))
            = newHeight e
                (pgsl_content (FragmentNode (fst (mintURI h e ''fragments'')) (length content) (newHeight e content cs)
                 content cs (agent e) (toISOString h (minted e))))
                (pgsl_constituents (FragmentNode (fst (mintURI h e ''fragments'')) (length content) (newHeight e content cs)
                 content cs (agent e) (toISOString h (minted e))))
        \<and> (pgsl_constituents (FragmentNode (fst (mintURI h e ''fragments'')) (length content) (newHeight e content cs)
                 content cs (agent e) (toISOString h (minted e))) = None \<longrightarrow>
             pgsl_content (FragmentNode (fst (mintURI h e ''fragments'')) (length content) (newHeight e content cs)
                 content cs (agent e) (toISOString h (minted e))) \<noteq> [])
        \<and> (\<forall>x\<in>set (pgsl_content (FragmentNode (fst (mintURI h e ''fragments'')) (length content) (newHeight e content cs)
                 content cs (agent e) (toISOString h (minted e)))). known h e x)
        \<and> (\<forall>l r. pgsl_constituents (FragmentNode (fst (mintURI h e ''fragments'')) (length content) (newHeight e content cs)
                 content cs (agent e) (toISOString h (minted e))) = Some (l, r) \<longrightarrow> known h e l \<and> known h e r)"
      using k w lr consistent_value_known[OF u c] by (simp del: mintURI_simps(1))
  qed
qed

lemma minted_config [simp]:
  "minted (setFederationConfig e auth ag) = minted e" "minted (subscribe e l) = minted e"
  "minted (unsubscribe e l) = minted e"
  by (simp_all add: setFederationConfig_def subscribe_def unsubscribe_def)

lemma lawful_ingestSequence:
  assumes u: "uniqueUUIDs h" and c: "consistent h e \<and> ordered h e \<and> lawful h e"
      and n: "noForwardRefs h e items"
  shows "consistent h (snd (ingestSequence h e items)) \<and> ordered h (snd (ingestSequence h e items))
       \<and> lawful h (snd (ingestSequence h e items))"
proof (rule ingestSequence_invariant[where I = "\<lambda>e. consistent h e \<and> ordered h e \<and> lawful h e"
                                       and G = "known h"])
  show "consistent h e \<and> ordered h e \<and> lawful h e" by (rule c)
  show "\<forall>item\<in>set items. isURI (String item) \<longrightarrow> known h e (String item)"
    using n by (simp add: noForwardRefs_def)
next
  fix e v assume "consistent h e \<and> ordered h e \<and> lawful h e"
  then show "(consistent h (snd (getCanonicalAtom h e v)) \<and> ordered h (snd (getCanonicalAtom h e v))
              \<and> lawful h (snd (getCanonicalAtom h e v)))
           \<and> known h (snd (getCanonicalAtom h e v)) (fst (getCanonicalAtom h e v))"
    using consistent_getCanonicalAtom[OF u] ordered_getCanonicalAtom[OF u]
      lawful_getCanonicalAtom[OF u] consistent_atom_known[OF u]
    by blast
next
  fix e v x assume "known h e x"
  then show "known h (snd (getCanonicalAtom h e v)) x"
    using known_mono getCanonicalAtom_minted by blast
next
  fix e c cs x assume "known h e x"
  then show "known h (snd (getCanonicalFragment h e c cs)) x"
    using known_mono getCanonicalFragment_minted by blast
next
  fix e c cs
  assume a: "consistent h e \<and> ordered h e \<and> lawful h e" "\<forall>x\<in>set c. known h e x"
     "cs = None \<longrightarrow> c \<noteq> []"
     "\<forall>l r. cs = Some (l, r) \<longrightarrow>
         l \<in> snd ` set (fragmentRegistry (state e)) \<and> l \<noteq> [] \<and>
         r \<in> snd ` set (fragmentRegistry (state e)) \<and> r \<noteq> []"
  have "consistent h (snd (getCanonicalFragment h e c cs))"
    using consistent_getCanonicalFragment[OF u, of e cs c] a(1,4) by blast
  moreover have "ordered h (snd (getCanonicalFragment h e c cs))"
    using ordered_getCanonicalFragment[OF u _ _ a(2)] a(1) by blast
  moreover have "lawful h (snd (getCanonicalFragment h e c cs))"
    using lawful_getCanonicalFragment[OF u _ _ _ a(2,3)] a(1,4) by blast
  ultimately show "consistent h (snd (getCanonicalFragment h e c cs))
                 \<and> ordered h (snd (getCanonicalFragment h e c cs))
                 \<and> lawful h (snd (getCanonicalFragment h e c cs))" by blast
next
  fix e assume "consistent h e \<and> ordered h e \<and> lawful h e"
  then show "consistent h (notify e) \<and> ordered h (notify e) \<and> lawful h (notify e)"
    using ordered_cong[of "notify e" e h] lawful_cong[of "notify e" e h] by simp
qed

lemma heightOf_deleteNode:
  "heightOf (deleteNode e uri) x = (if x = uri then 0 else heightOf e x)"
  by (simp add: heightOf_def getNode_def deleteNode_def notify_def AList.delete_conv')

lemma getAllNodes_deleteNode:
  "set (getAllNodes (deleteNode e uri)) \<subseteq> set (getAllNodes e)"
  by (auto simp: getAllNodes_def deleteNode_def notify_def AList.delete_eq)

lemma lawful_deleteNode:
  assumes l: "lawful h e" and d: "heightNeutral e uri"
  shows "lawful h (deleteNode e uri)"
  unfolding lawful_def
proof (intro ballI impI)
  fix n assume n: "n \<in> set (getAllNodes (deleteNode e uri))" and f: "isFragment n"
  have n': "n \<in> set (getAllNodes e)" using n getAllNodes_deleteNode by blast
  have facts: "pgsl_height n = newHeight e (pgsl_content n) (pgsl_constituents n)"
      "pgsl_constituents n = None \<longrightarrow> pgsl_content n \<noteq> []"
      "\<forall>l r. pgsl_constituents n = Some (l, r) \<longrightarrow> known h e l \<and> known h e r"
    using l n' f unfolding lawful_def by blast+
  have same: "heightOf (deleteNode e uri) x = heightOf e x"
    if "heightOf e uri = 0 \<or> x \<noteq> uri" for x
    using that by (auto simp: heightOf_deleteNode)
  have "newHeight (deleteNode e uri) (pgsl_content n) (pgsl_constituents n)
          = newHeight e (pgsl_content n) (pgsl_constituents n)"
  proof (cases "pgsl_constituents n")
    case None
    have "heightOf e uri = 0 \<or> firstContent (pgsl_content n) \<noteq> uri"
      using d n' f None unfolding heightNeutral_def referenced_def by force
    then show ?thesis using None by (simp add: newHeight_def same)
  next
    case (Some lr)
    obtain a b where lr: "lr = (a, b)" by (cases lr)
    have "heightOf e uri = 0 \<or> (a \<noteq> uri \<and> b \<noteq> uri)"
      using d n' f Some lr unfolding heightNeutral_def referenced_def by force
    then have "heightOf (deleteNode e uri) a = heightOf e a"
        "heightOf (deleteNode e uri) b = heightOf e b"
      using same by blast+
    then show ?thesis using Some lr by (simp add: newHeight_def)
  qed
  moreover have "known h (deleteNode e uri) = known h e"
    by (rule ext) (simp add: known_def)
  ultimately show "pgsl_height n = newHeight (deleteNode e uri) (pgsl_content n) (pgsl_constituents n)
      \<and> (pgsl_constituents n = None \<longrightarrow> pgsl_content n \<noteq> [])
      \<and> (\<forall>l r. pgsl_constituents n = Some (l, r) \<longrightarrow>
             known h (deleteNode e uri) l \<and> known h (deleteNode e uri) r)"
    using facts by simp
qed

lemma reachableHeightSafe_lawful:
  assumes u: "uniqueUUIDs h" and r: "reachableHeightSafe h e"
  shows "consistent h e \<and> ordered h e \<and> lawful h e"
  using r
proof (induction rule: reachableHeightSafe.induct)
  case hs_new
  show ?case
    using consistent_empty[of constructor h]
    by (simp add: constructor_def ordered_def lawful_def getAllNodes_def)
next
  case (hs_config e auth ag)
  then show ?case
    using ordered_cong[of "setFederationConfig e auth ag" e h]
      lawful_cong[of "setFederationConfig e auth ag" e h]
    by simp
next
  case (hs_subscribe e l)
  then show ?case
    using ordered_cong[of "subscribe e l" e h] lawful_cong[of "subscribe e l" e h]
    by simp
next
  case (hs_unsubscribe e l)
  then show ?case
    using ordered_cong[of "unsubscribe e l" e h] lawful_cong[of "unsubscribe e l" e h]
    by simp
next
  case (hs_atom e v)
  then show ?case
    using consistent_getCanonicalAtom[OF u] ordered_getCanonicalAtom[OF u]
      lawful_getCanonicalAtom[OF u] by blast
next
  case (hs_ingest e items)
  then show ?case using lawful_ingestSequence[OF u] by blast
next
  case (hs_delete e uri)
  then show ?case
    using consistent_deleteNode ordered_deleteNode lawful_deleteNode by blast
next
  case (hs_reset e)
  show ?case using consistent_reset[of h e]
    by (simp add: ordered_def lawful_def getAllNodes_def reset_def)
qed

lemma lawful_heightLaw: "lawful h e \<Longrightarrow> heightLaw e"
  unfolding lawful_def heightLaw_def newHeight_def
  by (auto split: option.splits elim: isAtom.elims)

text \<open>
  C3 as stated fails in two ways. Heights are computed once, at creation. (1) After
  ingesting two values and deleting both wrappers, the composite fragment still has
  height 2 while both constituents are unresolved. (2) A reference to an identifier that
  the engine mints only later: the wrapper of the reference gets height 1 while the
  identifier is unresolved, then a fragment is created under that very identifier, with
  height 1, and the wrapper's height stays 1.
\<close>

theorem heightLaw_broken:
  "\<not> heightLaw
       (deleteNode
         (deleteNode (snd (ingestSequence demoHost constructor [VString ''a'', VString ''b'']))
            ''http://localhost:3000/fragments/uuu'')
         ''http://localhost:3000/fragments/uuuu'')
   \<and> \<not> heightLaw
       (snd (ingestSequence demoHost
          (snd (ingestSequence demoHost constructor [VString ''http://localhost:3000/fragments/uu'']))
          [VString ''did:x'']))"
proof
  show "\<not> heightLaw
       (deleteNode
         (deleteNode (snd (ingestSequence demoHost constructor [VString ''a'', VString ''b'']))
            ''http://localhost:3000/fragments/uuu'')
         ''http://localhost:3000/fragments/uuuu'')"
    by code_simp
  show "\<not> heightLaw
       (snd (ingestSequence demoHost
          (snd (ingestSequence demoHost constructor [VString ''http://localhost:3000/fragments/uu'']))
          [VString ''did:x'']))"
    by code_simp
qed

text \<open>
  C3, amended. The height law holds for every node of the repository in every state
  reached from a new engine (UUIDs unique) by the public operations, provided that no
  ingested reference names an identifier the engine has yet to mint and that every
  \<open>deleteNode\<close> is height-neutral: its identifier resolves to no node, or to a node of
  height 0, or is referred to by no fragment.
\<close>

theorem reachableHeightSafe_heightLaw:
  assumes "uniqueUUIDs h" "reachableHeightSafe h e"
  shows "heightLaw e"
  using reachableHeightSafe_lawful[OF assms] lawful_heightLaw by blast

theorem reachableHeightSafe_heightLaw_witness:
  "uniqueUUIDs demoHost
   \<and> reachableHeightSafe demoHost
        (deleteNode
          (deleteNode
            (snd (ingestSequence demoHost constructor [VString ''a'', VString ''http://x/y'', VNumber ''3'']))
            ''http://localhost:3000/atoms/u'')
          ''http://localhost:3000/fragments/uuuuuuuu'')
   \<and> heightLaw
        (deleteNode
          (deleteNode
            (snd (ingestSequence demoHost constructor [VString ''a'', VString ''http://x/y'', VNumber ''3'']))
            ''http://localhost:3000/atoms/u'')
          ''http://localhost:3000/fragments/uuuuuuuu'')
   \<and> map pgsl_height (getAllNodes
        (deleteNode
          (deleteNode
            (snd (ingestSequence demoHost constructor [VString ''a'', VString ''http://x/y'', VNumber ''3'']))
            ''http://localhost:3000/atoms/u'')
          ''http://localhost:3000/fragments/uuuuuuuu''))
       = [0, 1, 1, 1, 2, 2]"
proof -
  define e1 where "e1 = snd (ingestSequence demoHost constructor [VString ''a'', VString ''http://x/y'', VNumber ''3''])"
  define e2 where "e2 = deleteNode e1 ''http://localhost:3000/atoms/u''"
  define e3 where "e3 = deleteNode e2 ''http://localhost:3000/fragments/uuuuuuuu''"
  have t: "trailingSegment ''http://x/y'' = ''y''" by code_simp
  have a: "\<not> isURI ''a''" "\<not> isURI (String (VNumber ''3''))" by code_simp+
  have n: "noForwardRefs demoHost constructor [VString ''a'', VString ''http://x/y'', VNumber ''3'']"
    using a by (simp add: noForwardRefs_def known_def t demoHost_def)
  have r1: "reachableHeightSafe demoHost e1"
    unfolding e1_def by (rule hs_ingest[OF hs_new n])
  have d1: "heightNeutral e1 ''http://localhost:3000/atoms/u''"
    unfolding e1_def by code_simp
  have r2: "reachableHeightSafe demoHost e2"
    unfolding e2_def by (rule hs_delete[OF r1 d1])
  have d2: "heightNeutral e2 ''http://localhost:3000/fragments/uuuuuuuu''"
    unfolding e2_def e1_def by code_simp
  have r3: "reachableHeightSafe demoHost e3"
    unfolding e3_def by (rule hs_delete[OF r2 d2])
  have v: "map pgsl_height (getAllNodes e3) = [0, 1, 1, 1, 2, 2]"
    unfolding e3_def e2_def e1_def by code_simp
  show ?thesis
    using reachableHeightSafe_heightLaw [OF uniqueUUIDs_demoHost r3] uniqueUUIDs_demoHost r3 v
    unfolding e3_def e2_def e1_def by blast
qed

section \<open>The lattice of a sequence of distinct values\<close>

subsection \<open>What the fragment loops request\<close>

lemma fold_invariant_mem:
  "(\<And>x s. x \<in> set xs \<Longrightarrow> P s \<Longrightarrow> P (f x s)) \<Longrightarrow> P s \<Longrightarrow> P (fold f xs s)"
  by (induction xs arbitrary: s) simp_all

lemma wrapAll_invariant:
  assumes step: "\<And>e b. P e \<Longrightarrow> b \<in> set us \<Longrightarrow> P (snd (getCanonicalFragment h e [b] None))"
  shows "P e \<Longrightarrow> set bs \<subseteq> set us \<Longrightarrow> P (snd (wrapAll h e bs))"
proof (induction bs arbitrary: e)
  case Nil
  then show ?case by simp
next
  case (Cons b rest)
  have "P (snd (getCanonicalFragment h e [b] None))" using step Cons.prems by simp
  then show ?case using Cons.IH Cons.prems(2) by (simp add: Let_def split_beta)
qed

lemma buildLattice_invariant:
  assumes step: "\<And>e i len cs. P e \<Longrightarrow> 2 \<le> len \<Longrightarrow> i + len \<le> length us \<Longrightarrow> cs \<noteq> None \<Longrightarrow>
                   P (snd (getCanonicalFragment h e (slice us i (i + len)) cs))"
      and P: "P e"
  shows "P (snd (buildLattice h us (length us) (t, e)))"
proof -
  let ?Q = "\<lambda>s :: URI \<times> PGSLEngine. P (snd s)"
  have st: "?Q (buildStep h us (length us) len i s)"
    if "?Q s" "2 \<le> len" "i + len \<le> length us" for s len i
  proof -
    obtain t0 e0 where s: "s = (t0, e0)" by (cases s)
    let ?l = "map_of (fragmentRegistry (state e0)) (slice us i (i + len - 1))"
    let ?r = "map_of (fragmentRegistry (state e0)) (slice us (i + 1) (i + len))"
    show ?thesis
    proof (cases "truthy ?l \<and> truthy ?r")
      case False
      then have "buildStep h us (length us) len i s = s"
        unfolding s buildStep_def by (auto simp: Let_def)
      then show ?thesis using that(1) by simp
    next
      case True
      have "snd (buildStep h us (length us) len i s)
              = snd (getCanonicalFragment h e0 (slice us i (i + len)) (Some (the ?l, the ?r)))"
        using True unfolding s buildStep_def by (simp add: Let_def split_beta)
      then show ?thesis using step[of e0 len i "Some (the ?l, the ?r)"] that s by simp
    qed
  qed
  have lv: "?Q (buildLevel h us (length us) len s)"
    if "?Q s" "len \<in> set [2..<Suc (length us)]" for s len
    unfolding buildLevel_def
  proof (rule fold_invariant_mem[where P = ?Q])
    show "?Q s" by (rule that(1))
  next
    fix i and s' :: "URI \<times> PGSLEngine"
    assume a: "i \<in> set [0..<Suc (length us - len)]" "?Q s'"
    have l: "2 \<le> len" "len \<le> length us" using that(2) by auto
    have "i \<le> length us - len" using a(1) by auto
    then have "i + len \<le> length us" using l(2) by linarith
    then show "?Q (buildStep h us (length us) len i s')" using st[OF a(2) l(1)] by blast
  qed
  show ?thesis
    unfolding buildLattice_def
    by (rule fold_invariant_mem[where P = ?Q]) (simp_all add: lv P)
qed

subsection \<open>What one canonicalization adds\<close>

lemma update_new_value:
  "n \<in> set (map snd (AList.update k v al)) \<Longrightarrow> n \<notin> set (map snd al) \<Longrightarrow> n = v"
  by (induction al) (auto split: if_splits)

lemma getCanonicalFragment_keys:
  "fst ` set (fragmentRegistry (state (snd (getCanonicalFragment h e c cs))))
     \<subseteq> insert c (fst ` set (fragmentRegistry (state e)))"
  by (cases "truthy (map_of (fragmentRegistry (state e)) c)")
     (auto simp: getCanonicalFragment_hit getCanonicalFragment_miss dom_update simp del: mintURI_simps(1))

lemma getCanonicalFragment_new_node:
  assumes "n \<in> set (getAllNodes (snd (getCanonicalFragment h e c cs)))" "n \<notin> set (getAllNodes e)"
  shows "isFragment n \<and> pgsl_content n = c \<and> pgsl_constituents n = cs"
proof (cases "truthy (map_of (fragmentRegistry (state e)) c)")
  case True
  then show ?thesis using assms by (simp add: getCanonicalFragment_hit)
next
  case False
  have "n = FragmentNode (fst (mintURI h e ''fragments'')) (length c) (newHeight e c cs) c cs
              (agent e) (toISOString h (minted e))"
    using assms unfolding getCanonicalFragment_miss[OF False] getAllNodes_def
    by (intro update_new_value[of n _ _ "nodeRepository (state e)"]) (simp_all del: mintURI_simps(1))
  then show ?thesis by simp
qed

lemma getCanonicalAtom_keys:
  "fst ` set (atomRegistry (state (snd (getCanonicalAtom h e v))))
     \<subseteq> insert (String v) (fst ` set (atomRegistry (state e)))"
  by (cases "truthy (map_of (atomRegistry (state e)) (String v))")
     (auto simp: getCanonicalAtom_hit getCanonicalAtom_miss dom_update simp del: mintURI_simps(1))

lemma getCanonicalAtom_new_node:
  assumes "n \<in> set (getAllNodes (snd (getCanonicalAtom h e v)))" "n \<notin> set (getAllNodes e)"
  shows "isAtom n"
proof (cases "truthy (map_of (atomRegistry (state e)) (String v))")
  case True
  then show ?thesis using assms by (simp add: getCanonicalAtom_hit)
next
  case False
  have "n = AtomNode (fst (mintURI h e ''atoms'')) v (agent e) (toISOString h (minted e))"
    using assms unfolding getCanonicalAtom_miss[OF False] getAllNodes_def
    by (intro update_new_value[of n _ _ "nodeRepository (state e)"]) (simp_all del: mintURI_simps(1))
  then show ?thesis by simp
qed

lemma normalizeItems_keys:
  "fst ` set (atomRegistry (state (snd (normalizeItems h e items))))
     \<subseteq> String ` set items \<union> fst ` set (atomRegistry (state e))"
proof (induction items arbitrary: e)
  case Nil
  then show ?case by simp
next
  case (Cons item rest)
  show ?case
  proof (cases "isURI (String item)")
    case True
    then show ?thesis using Cons.IH[of e] by (auto simp: Let_def split_beta)
  next
    case False
    then show ?thesis
      using Cons.IH[of "snd (getCanonicalAtom h e item)"] getCanonicalAtom_keys[of h e item]
      by (simp add: Let_def split_beta) blast
  qed
qed

lemma normalizeItems_new_nodes:
  "n \<in> set (getAllNodes (snd (normalizeItems h e items))) \<Longrightarrow> n \<notin> set (getAllNodes e) \<Longrightarrow> isAtom n"
proof (induction items arbitrary: e)
  case Nil
  then show ?case by simp
next
  case (Cons item rest)
  show ?case
  proof (cases "isURI (String item)")
    case True
    then show ?thesis using Cons by (simp add: Let_def split_beta)
  next
    case False
    then have n: "n \<in> set (getAllNodes (snd (normalizeItems h (snd (getCanonicalAtom h e item)) rest)))"
      using Cons.prems(1) by (simp add: Let_def split_beta)
    show ?thesis
    proof (cases "n \<in> set (getAllNodes (snd (getCanonicalAtom h e item)))")
      case True
      then show ?thesis using getCanonicalAtom_new_node Cons.prems(2) by blast
    next
      case False
      then show ?thesis using Cons.IH[OF n] by blast
    qed
  qed
qed

subsection \<open>Counting the contiguous slices of a distinct list\<close>

lemma length_slice: "i + len \<le> length us \<Longrightarrow> length (slice us i (i + len)) = len"
  by (simp add: slice_def)

lemma slice_first: "1 \<le> len \<Longrightarrow> i + len \<le> length us \<Longrightarrow> slice us i (i + len) ! 0 = us ! i"
  by (simp add: slice_def)

lemma slice_inj:
  assumes d: "distinct us"
      and a: "1 \<le> len" "i + len \<le> length us" and b: "1 \<le> len'" "j + len' \<le> length us"
      and eq: "slice us i (i + len) = slice us j (j + len')"
  shows "i = j \<and> len = len'"
proof -
  have l: "len = len'" using length_slice[OF a(2)] length_slice[OF b(2)] eq by simp
  have "us ! i = us ! j" using slice_first[OF a] slice_first[OF b] eq by simp
  moreover have "i < length us" "j < length us" using a b by simp_all
  ultimately have "i = j" using d by (simp add: nth_eq_iff_index_eq)
  then show ?thesis using l by simp
qed

lemma sum_staircase: "(\<Sum>len\<in>{1..N}. Suc (N - len)) = N * (N + 1) div 2"
proof -
  have "(\<Sum>len\<in>{1..N}. Suc (N - len)) = (\<Sum>len\<in>{1..N}. N + 1 - len)"
    by (rule sum.cong) auto
  also have "\<dots> = (\<Sum>len\<in>{1..N}. len)"
    using sum.atLeastAtMost_rev[of "\<lambda>x. x" 1 N] by simp
  also have "\<dots> = N * (N + 1) div 2"
    by (induction N) simp_all
  finally show ?thesis .
qed

lemma card_slices:
  assumes d: "distinct us"
  shows "card ((\<lambda>(len, i). slice us i (i + len)) ` (SIGMA len:{1..length us}. {0..length us - len}))
           = length us * (length us + 1) div 2"
proof -
  let ?N = "length us"
  let ?I = "SIGMA len:{1..?N}. {0..?N - len}"
  have inj: "inj_on (\<lambda>(len, i). slice us i (i + len)) ?I"
  proof (rule inj_onI)
    fix x y assume x: "x \<in> ?I" and y: "y \<in> ?I"
      and eq: "(\<lambda>(len, i). slice us i (i + len)) x = (\<lambda>(len, i). slice us i (i + len)) y"
    obtain l1 i1 where x': "x = (l1, i1)" by (cases x)
    obtain l2 i2 where y': "y = (l2, i2)" by (cases y)
    have a: "1 \<le> l1" "i1 + l1 \<le> ?N" using x x' by auto
    have b: "1 \<le> l2" "i2 + l2 \<le> ?N" using y y' by auto
    show "x = y" using slice_inj[OF d a b] eq x' y' by simp
  qed
  have "card ?I = (\<Sum>len\<in>{1..?N}. card {0..?N - len})" by (rule card_SigmaI) simp_all
  also have "\<dots> = (\<Sum>len\<in>{1..?N}. Suc (?N - len))" by simp
  also have "\<dots> = ?N * (?N + 1) div 2" by (rule sum_staircase)
  finally show ?thesis using card_image[OF inj] by simp
qed

lemma slices_image:
  "(\<lambda>(len, i). slice us i (i + len)) ` (SIGMA len:{1..length us}. {0..length us - len})
     = {c. \<exists>i len. 1 \<le> len \<and> i + len \<le> length us \<and> c = slice us i (i + len)}"
  by (auto simp: image_iff) force

lemma card_single_slices:
  assumes d: "distinct us"
  shows "card {c. (\<exists>i len. 1 \<le> len \<and> i + len \<le> length us \<and> c = slice us i (i + len)) \<and> length c = 1}
           = length us"
proof -
  have "{c. (\<exists>i len. 1 \<le> len \<and> i + len \<le> length us \<and> c = slice us i (i + len)) \<and> length c = 1}
          = (\<lambda>i. slice us i (i + 1)) ` {0..<length us}"
  proof (intro set_eqI iffI)
    fix c assume "c \<in> {c. (\<exists>i len. 1 \<le> len \<and> i + len \<le> length us \<and> c = slice us i (i + len)) \<and> length c = 1}"
    then obtain i len where il: "1 \<le> len" "i + len \<le> length us" "c = slice us i (i + len)" "length c = 1"
      by auto
    then have "len = 1" using length_slice[OF il(2)] by simp
    then show "c \<in> (\<lambda>i. slice us i (i + 1)) ` {0..<length us}" using il by auto
  next
    fix c assume "c \<in> (\<lambda>i. slice us i (i + 1)) ` {0..<length us}"
    then obtain i where i: "i < length us" "c = slice us i (i + 1)" by auto
    then have "length c = 1" using length_slice[of i 1 us] by simp
    moreover have "\<exists>j len. 1 \<le> len \<and> j + len \<le> length us \<and> c = slice us j (j + len)"
      using i by (intro exI[of _ i] exI[of _ 1]) simp
    ultimately show "c \<in> {c. (\<exists>i len. 1 \<le> len \<and> i + len \<le> length us \<and> c = slice us i (i + len)) \<and> length c = 1}"
      by simp
  qed
  moreover have "inj_on (\<lambda>i. slice us i (i + 1)) {0..<length us}"
  proof (rule inj_onI)
    fix x y assume "x \<in> {0..<length us}" "y \<in> {0..<length us}" "slice us x (x + 1) = slice us y (y + 1)"
    then show "x = y" using slice_inj[OF d, of 1 x 1 y] by simp
  qed
  ultimately show ?thesis by (simp add: card_image)
qed

subsection \<open>The state after ingesting into an empty engine\<close>

lemma truthy_in_keys: "truthy (map_of al k) \<Longrightarrow> k \<in> fst ` set al"
proof (cases "map_of al k")
  case (Some v)
  then have "(k, v) \<in> set al" by (rule map_of_SomeD)
  then show ?thesis by force
qed simp

lemma buildLattice_single: "length us = 1 \<Longrightarrow> buildLattice h us (length us) s = s"
  by (simp add: buildLattice_def)

lemma ingestSequence_final:
  assumes ne: "items \<noteq> []"
      and n: "normalizeItems h e items = (us, ea)" and w: "wrapAll h ea us = (ws, eb)"
      and b: "buildLattice h us (length us) (ws ! 0, eb) = (tp, ec)"
  shows "snd (ingestSequence h e items) = notify ec"
proof (cases "length items = 1")
  case True
  have l: "length us = 1" "length ws = 1"
    using normalizeItems_result[OF n] wrapAll_result[OF w] True by simp_all
  then have "ec = eb" using b buildLattice_single[of us h "(ws ! 0, eb)"] by simp
  then show ?thesis using ne n w l by (simp add: ingestSequence_def Let_def)
next
  case False
  have "length ws = length items"
    using normalizeItems_result[OF n] wrapAll_result[OF w] by simp
  then show ?thesis using ne n w b False by (simp add: ingestSequence_def Let_def)
qed

lemma registry_values_inj:
  assumes c: "consistent h e"
      and a: "map_of (atomRegistry (state e)) k1 = Some v" "map_of (atomRegistry (state e)) k2 = Some v"
  shows "k1 = k2"
proof -
  have "map snd (atomRegistry (state e)) = map node_id (filter isAtom (getAllNodes e))"
    using c unfolding consistent_def by (simp add: atomEntry_def comp_def)
  then have d: "distinct (map snd (atomRegistry (state e)))"
    using consistent_ids(2)[OF c] by (simp add: distinct_map_filter)
  have "(k1, v) \<in> set (atomRegistry (state e))" "(k2, v) \<in> set (atomRegistry (state e))"
    using a by (simp_all add: map_of_SomeD)
  then show ?thesis using d
    by (metis (no_types, lifting) distinct_map inj_onD snd_conv fst_conv)
qed

lemma ingest_empty_structure:
  assumes u: "uniqueUUIDs h"
      and empty: "state e = \<lparr> atomRegistry = [], fragmentRegistry = [], nodeRepository = [] \<rparr>"
      and ne: "items \<noteq> []"
      and ds: "distinct (map String items)"
      and raw: "\<forall>item\<in>set items. \<not> isURI (String item)"
      and n: "normalizeItems h e items = (us, ea)"
  defines "e' \<equiv> snd (ingestSequence h e items)"
  shows "consistent h e'"
    and "fst ` set (atomRegistry (state e')) = String ` set items"
    and "fst ` set (fragmentRegistry (state e'))
           = {c. \<exists>i len. 1 \<le> len \<and> i + len \<le> length us \<and> c = slice us i (i + len)}"
    and "\<forall>n\<in>set (getAllNodes e'). isFragment n \<longrightarrow>
           (pgsl_constituents n = None \<longleftrightarrow> length (pgsl_content n) = 1)"
    and "distinct us" and "length us = length items"
    and "us = map (baseOf e') items"
proof -
  define S where "S = {c. \<exists>i len. 1 \<le> len \<and> i + len \<le> length us \<and> c = slice us i (i + len)}"
  obtain ws eb where w: "wrapAll h ea us = (ws, eb)" by (cases "wrapAll h ea us")
  obtain top ec where b: "buildLattice h us (length us) (ws ! 0, eb) = (top, ec)"
    by (cases "buildLattice h us (length us) (ws ! 0, eb)")
  note nr = normalizeItems_result[OF n]
  note wr = wrapAll_result[OF w]
  show lus: "length us = length items" using nr by simp
  have N: "1 \<le> length us" using ne lus by (cases items) simp_all
  have c1: "completeUpTo eb us 1" using wr wrappers_completeUpTo by blast
  note br = buildLattice_result[OF refl N c1 b]
  have fin: "e' = notify ec" unfolding e'_def by (rule ingestSequence_final[OF ne n w b])
  have eb_def: "eb = snd (wrapAll h ea us)" using w by simp
  have ec_def: "ec = snd (buildLattice h us (length us) (ws ! 0, eb))" using b by simp
  have ea_def: "ea = snd (normalizeItems h e items)" using n by simp
  have ce: "consistent h e" by (rule consistent_empty[OF empty])
  show con: "consistent h e'"
    unfolding e'_def by (rule consistent_ingestSequence[OF u ce])
  have ar: "atomRegistry (state e') = atomRegistry (state ea)" using fin br wr by simp
  have "fst ` set (atomRegistry (state ea)) \<subseteq> String ` set items"
    using normalizeItems_keys[of h e items] empty by (simp add: ea_def)
  moreover have "String ` set items \<subseteq> fst ` set (atomRegistry (state ea))"
  proof
    fix k assume "k \<in> String ` set items"
    then obtain item where i: "item \<in> set items" "k = String item" by auto
    then have "truthy (map_of (atomRegistry (state ea)) k)" using nr raw by simp
    then show "k \<in> fst ` set (atomRegistry (state ea))" by (rule truthy_in_keys)
  qed
  ultimately show "fst ` set (atomRegistry (state e')) = String ` set items" using ar by auto
  have sliceS: "slice us i (i + len) \<in> S" if "1 \<le> len" "i + len \<le> length us" for i len
    unfolding S_def using that by blast
  have single: "[x] \<in> S" if xin: "x \<in> set us" for x
  proof -
    obtain j where j: "j < length us" "us ! j = x" using xin by (auto simp: in_set_conv_nth)
    have "[x] = slice us j (j + 1)" using slice_single[OF j(1)] j(2) by simp
    then show ?thesis using sliceS[of 1 j] j(1) by simp
  qed
  have f0: "fragmentRegistry (state ea) = []" using nr empty by simp
  have k1: "fst ` set (fragmentRegistry (state eb)) \<subseteq> S"
    unfolding eb_def
  proof (rule wrapAll_invariant[where P = "\<lambda>e :: PGSLEngine. fst ` set (fragmentRegistry (state e)) \<subseteq> S" and us = us])
    fix e0 :: PGSLEngine and x assume a: "fst ` set (fragmentRegistry (state e0)) \<subseteq> S" "x \<in> set us"
    have "insert [x] (fst ` set (fragmentRegistry (state e0))) \<subseteq> S" using a single by simp
    then show "fst ` set (fragmentRegistry (state (snd (getCanonicalFragment h e0 [x] None)))) \<subseteq> S"
      by (rule subset_trans[OF getCanonicalFragment_keys])
  qed (simp_all add: f0)
  have k2: "fst ` set (fragmentRegistry (state ec)) \<subseteq> S"
    unfolding ec_def
  proof (rule buildLattice_invariant[where P = "\<lambda>e :: PGSLEngine. fst ` set (fragmentRegistry (state e)) \<subseteq> S"])
    fix e0 :: PGSLEngine and i len cs
    assume a: "fst ` set (fragmentRegistry (state e0)) \<subseteq> S" "2 \<le> len" "i + len \<le> length us"
    have "slice us i (i + len) \<in> S" using sliceS[of len i] a(2,3) by simp
    then have "insert (slice us i (i + len)) (fst ` set (fragmentRegistry (state e0))) \<subseteq> S"
      using a(1) by simp
    then show "fst ` set (fragmentRegistry (state (snd (getCanonicalFragment h e0 (slice us i (i + len)) cs)))) \<subseteq> S"
      by (rule subset_trans[OF getCanonicalFragment_keys])
  qed (rule k1)
  have k3: "S \<subseteq> fst ` set (fragmentRegistry (state ec))"
  proof
    fix c assume "c \<in> S"
    then obtain i len where il: "1 \<le> len" "i + len \<le> length us" "c = slice us i (i + len)"
      unfolding S_def by auto
    then have "truthy (map_of (fragmentRegistry (state ec)) c)"
      using br unfolding completeUpTo_def by simp
    then show "c \<in> fst ` set (fragmentRegistry (state ec))" by (rule truthy_in_keys)
  qed
  have "fst ` set (fragmentRegistry (state e')) = S" using k2 k3 fin by auto
  then show "fst ` set (fragmentRegistry (state e'))
           = {c. \<exists>i len. 1 \<le> len \<and> i + len \<le> length us \<and> c = slice us i (i + len)}"
    unfolding S_def .
  let ?P = "\<lambda>e :: PGSLEngine. \<forall>n\<in>set (getAllNodes e). isFragment n \<longrightarrow>
                   (pgsl_constituents n = None \<longleftrightarrow> length (pgsl_content n) = 1)"
  have n0: "getAllNodes e = []" using empty by (simp add: getAllNodes_def)
  have p0: "?P ea"
  proof (intro ballI impI)
    fix x assume "x \<in> set (getAllNodes ea)" "isFragment x"
    moreover from this have "isAtom x"
      using normalizeItems_new_nodes[of x h e items] n0 by (simp add: ea_def)
    ultimately show "(pgsl_constituents x = None) = (length (pgsl_content x) = 1)"
      using atom_not_fragment by blast
  qed
  have p1: "?P eb"
    unfolding eb_def
  proof (rule wrapAll_invariant[where P = ?P and us = us])
    fix e0 :: PGSLEngine and x assume a: "?P e0" "x \<in> set us"
    show "?P (snd (getCanonicalFragment h e0 [x] None))"
    proof (intro ballI impI)
      fix m assume m: "m \<in> set (getAllNodes (snd (getCanonicalFragment h e0 [x] None)))" "isFragment m"
      show "(pgsl_constituents m = None) = (length (pgsl_content m) = 1)"
      proof (cases "m \<in> set (getAllNodes e0)")
        case True
        then show ?thesis using a(1) m(2) by blast
      next
        case False
        then show ?thesis using getCanonicalFragment_new_node[OF m(1) False] by simp
      qed
    qed
  qed (simp_all add: p0)
  have p2: "?P ec"
    unfolding ec_def
  proof (rule buildLattice_invariant[where P = ?P])
    fix e0 :: PGSLEngine and i len cs
    assume a: "?P e0" "2 \<le> len" "i + len \<le> length us" "cs \<noteq> (None :: (URI \<times> URI) option)"
    show "?P (snd (getCanonicalFragment h e0 (slice us i (i + len)) cs))"
    proof (intro ballI impI)
      fix m assume m: "m \<in> set (getAllNodes (snd (getCanonicalFragment h e0 (slice us i (i + len)) cs)))"
                      "isFragment m"
      show "(pgsl_constituents m = None) = (length (pgsl_content m) = 1)"
      proof (cases "m \<in> set (getAllNodes e0)")
        case True
        then show ?thesis using a(1) m(2) by blast
      next
        case False
        then show ?thesis
          using getCanonicalFragment_new_node[OF m(1) False] a(2,4) length_slice[OF a(3)] by simp
      qed
    qed
  qed (rule p1)
  show "?P e'" using p2 fin by simp
  have bo: "baseOf e' = baseOf ea" using ar by (auto simp: baseOf_def)
  show us: "us = map (baseOf e') items" using nr bo by simp
  have di: "distinct items" using ds by (simp add: distinct_map)
  have "inj_on (baseOf e') (set items)"
  proof (rule inj_onI)
    fix x y assume xy: "x \<in> set items" "y \<in> set items" "baseOf e' x = baseOf e' y"
    have tx: "truthy (map_of (atomRegistry (state e')) (String x))"
     and ty: "truthy (map_of (atomRegistry (state e')) (String y))"
      using nr xy raw ar by simp_all
    have "map_of (atomRegistry (state e')) (String x) = Some (baseOf e' x)"
         "map_of (atomRegistry (state e')) (String y) = Some (baseOf e' y)"
      using truthy_Some_the[OF tx] truthy_Some_the[OF ty] xy raw by (simp_all add: baseOf_def)
    then have "String x = String y" using registry_values_inj[OF con] xy(3) by metis
    then show "x = y" using ds xy by (simp add: distinct_map inj_on_def)
  qed
  then show "distinct us" unfolding us using di by (simp add: distinct_map)
qed

lemma staircase_minus: "N * (N + 1) div 2 - N = N * (N - 1) div 2" for N :: nat
proof (cases N)
  case 0
  then show ?thesis by simp
next
  case (Suc m)
  have a: "Suc m * (Suc m + 1) = Suc m * m + Suc m * 2"
    by (simp add: algebra_simps)
  have b: "(Suc m * m + Suc m * 2) div 2 = Suc m * m div 2 + Suc m"
    by (rule div_mult_self1[of 2 "Suc m * m" "Suc m", simplified add.commute[of "Suc m"]]) simp
  have "Suc m * (Suc m + 1) div 2 = Suc m * m div 2 + Suc m"
    unfolding a by (rule b)
  then show ?thesis unfolding Suc by simp
qed

text \<open>
  C1 as stated fails in two ways. (1) The number 1 and the string \<open>1\<close> are distinct raw
  values with the same string form; ingesting them creates one atom and two fragments, not
  two and three. (2) A string shaped like a reference (here \<open>did:a\<close>) is taken as an
  identifier and no atom is created for it.
\<close>

theorem ingestSequence_same_string_form:
  "distinct [VNumber ''1'', VString ''1'']
   \<and> length (filter isAtom
         (getAllNodes (snd (ingestSequence demoHost constructor [VNumber ''1'', VString ''1''])))) = 1
   \<and> length (filter isFragment
         (getAllNodes (snd (ingestSequence demoHost constructor [VNumber ''1'', VString ''1''])))) = 2
   \<and> length (filter isAtom
         (getAllNodes (snd (ingestSequence demoHost constructor [VString ''did:a''])))) = 0"
  by code_simp

text \<open>
  C1, amended. Starting from an empty engine state (UUIDs unique), for every sequence of
  \<open>N \<ge> 1\<close> raw values (none shaped like a reference) whose string forms are pairwise
  distinct and none the name of an \<open>Object.prototype\<close> member, \<open>ingestSequence\<close> leaves exactly \<open>N\<close> atoms, one per item, exactly \<open>N\<close> singleton wrappers,
  exactly \<open>N(N-1)/2\<close> composite fragments and \<open>N(N+1)/2\<close> fragments in all: exactly one
  fragment for every contiguous sub-sequence of the items' atoms.
\<close>

theorem ingestSequence_lattice_counts:
  assumes u: "uniqueUUIDs h"
      and empty: "state e = \<lparr> atomRegistry = [], fragmentRegistry = [], nodeRepository = [] \<rparr>"
      and ne: "items \<noteq> []"
      and ds: "distinct (map String items)"
      and raw: "\<forall>item\<in>set items. \<not> isURI (String item)"
      and own: "\<forall>item\<in>set items. ownKey (String item)"
  shows "let e' = snd (ingestSequence h e items); N = length items;
             nodes = getAllNodes e'; us = map (baseOf e') items
         in length (filter isAtom nodes) = N
          \<and> (\<forall>j<N. \<exists>n. getNode e' (us ! j) = Some n \<and> isAtom n
                        \<and> String (rdf_value n) = String (items ! j))
          \<and> length (filter isWrapper nodes) = N
          \<and> length (filter isComposite nodes) = N * (N - 1) div 2
          \<and> length (filter isFragment nodes) = N * (N + 1) div 2
          \<and> (\<forall>i len. 1 \<le> len \<longrightarrow> i + len \<le> N \<longrightarrow>
                length (filter (\<lambda>n. isFragment n \<and> pgsl_content n = slice us i (i + len)) nodes) = 1)"
proof -
  define e' where "e' = snd (ingestSequence h e items)"
  define nodes where "nodes = getAllNodes e'"
  define frags where "frags = filter isFragment nodes"
  define us where "us = fst (normalizeItems h e items)"
  define S where "S = {c. \<exists>i len. 1 \<le> len \<and> i + len \<le> length us \<and> c = slice us i (i + len)}"
  have n: "normalizeItems h e items = (us, snd (normalizeItems h e items))" by (simp add: us_def)
  note st = ingest_empty_structure[OF u empty ne ds raw n, folded e'_def]
  have con: "consistent h e'" by (rule st(1))
  have N: "length us = length items" by (rule st(6))
  have us: "us = map (baseOf e') items" by (rule st(7))
  have ar: "atomRegistry (state e') = map atomEntry (filter isAtom nodes)"
   and fr: "fragmentRegistry (state e') = map fragmentEntry frags"
   and da: "distinct (map fst (atomRegistry (state e')))"
   and df: "distinct (map fst (fragmentRegistry (state e')))"
    using con unfolding consistent_def nodes_def frags_def by blast+
  have keys: "map fst (fragmentRegistry (state e')) = map pgsl_content frags"
    unfolding fr by (simp add: fragmentEntry_def comp_def)
  have dc: "distinct (map pgsl_content frags)" using df keys by simp
  have setS: "set (map pgsl_content frags) = S"
    using st(3) keys unfolding S_def by (metis set_map)
  have "card S = length us * (length us + 1) div 2"
    using card_slices[OF st(5)] unfolding slices_image S_def .
  then have cardS: "card S = length items * (length items + 1) div 2"
    using N by simp
  \<comment> \<open>atoms\<close>
  have "length (filter isAtom nodes) = length (map fst (atomRegistry (state e')))"
    unfolding ar by simp
  also have "\<dots> = card (String ` set items)"
    using distinct_card[OF da] st(2) by (metis set_map)
  also have "\<dots> = length items" using distinct_card[OF ds] by simp
  finally have atoms: "length (filter isAtom nodes) = length items" .
  have each: "\<exists>n. getNode e' (us ! j) = Some n \<and> isAtom n \<and> String (rdf_value n) = String (items ! j)"
    if j: "j < length items" for j
  proof -
    have it: "items ! j \<in> set items" using j by simp
    then have "String (items ! j) \<in> fst ` set (atomRegistry (state e'))" using st(2) by blast
    then obtain v where v: "map_of (atomRegistry (state e')) (String (items ! j)) = Some v"
      by (metis domD dom_map_of_conv_image_fst)
    have "us ! j = v" using us j it raw v by (simp add: baseOf_def)
    moreover obtain m where "(v, m) \<in> set (nodeRepository (state e'))" "isAtom m"
        "String (rdf_value m) = String (items ! j)"
      using consistent_atom_entry[OF con map_of_SomeD[OF v]] by blast
    ultimately show ?thesis using consistent_getNode[OF con] by blast
  qed
  \<comment> \<open>fragments\<close>
  have "length frags = length (map pgsl_content frags)" by simp
  also have "\<dots> = card S" using distinct_card[OF dc] setS by simp
  finally have fragc: "length frags = length items * (length items + 1) div 2" using cardS by simp
  have shape: "\<And>m. m \<in> set frags \<Longrightarrow> (pgsl_constituents m = None) = (length (pgsl_content m) = 1)"
    using st(4) unfolding frags_def nodes_def by simp
  have "filter isWrapper nodes = filter (\<lambda>m. length (pgsl_content m) = 1) frags"
    unfolding frags_def using st(4) nodes_def by (auto simp: isWrapper_def intro!: filter_cong)
  then have "length (filter isWrapper nodes) = length (filter (\<lambda>c. length c = 1) (map pgsl_content frags))"
    by (simp add: filter_map comp_def)
  also have "\<dots> = card {c \<in> S. length c = 1}"
    using distinct_card[OF distinct_filter[OF dc], of "\<lambda>c. length c = 1"] setS by simp
  also have "\<dots> = length items"
    using card_single_slices[OF st(5)] unfolding S_def N by simp
  finally have wrap: "length (filter isWrapper nodes) = length items" .
  have "filter isComposite nodes = filter (\<lambda>m. \<not> length (pgsl_content m) = 1) frags"
    unfolding frags_def using st(4) nodes_def by (auto simp: isComposite_def intro!: filter_cong)
  moreover have "length (filter (\<lambda>m. length (pgsl_content m) = 1) frags)
               + length (filter (\<lambda>m. \<not> length (pgsl_content m) = 1) frags) = length frags"
    by (rule sum_length_filter_compl)
  moreover have "length (filter (\<lambda>m. length (pgsl_content m) = 1) frags) = length items"
    using wrap \<open>filter isWrapper nodes = filter (\<lambda>m. length (pgsl_content m) = 1) frags\<close> by simp
  ultimately have "length (filter isComposite nodes) = length items * (length items + 1) div 2 - length items"
    using fragc by simp
  then have comp: "length (filter isComposite nodes) = length items * (length items - 1) div 2"
    by (simp only: staircase_minus)
  have one: "length (filter (\<lambda>m. isFragment m \<and> pgsl_content m = slice us i (i + len)) nodes) = 1"
    if a: "1 \<le> len" "i + len \<le> length items" for i len
  proof -
    have "slice us i (i + len) \<in> S" unfolding S_def using a N by auto
    then obtain m where m: "m \<in> set frags" "pgsl_content m = slice us i (i + len)"
      using setS by auto
    have "filter (\<lambda>m. isFragment m \<and> pgsl_content m = slice us i (i + len)) nodes
            = filter (\<lambda>x. pgsl_content x = pgsl_content m) frags"
      unfolding frags_def using m(2) by (simp add: conj_commute)
    then show ?thesis using filter_unique[OF dc m(1)] by simp
  qed
  show ?thesis
    unfolding Let_def
    using atoms each wrap comp fragc one
    unfolding frags_def nodes_def e'_def us by blast
qed

theorem ingestSequence_lattice_counts_witness:
  "uniqueUUIDs demoHost
   \<and> state constructor = \<lparr> atomRegistry = [], fragmentRegistry = [], nodeRepository = [] \<rparr>
   \<and> [VString ''a'', VNumber ''2'', VString ''c''] \<noteq> []
   \<and> distinct (map String [VString ''a'', VNumber ''2'', VString ''c''])
   \<and> \<not> isURI (String (VString ''a'')) \<and> \<not> isURI (String (VNumber ''2''))
   \<and> \<not> isURI (String (VString ''c''))
   \<and> ownKey (String (VString ''a'')) \<and> ownKey (String (VNumber ''2''))
   \<and> ownKey (String (VString ''c''))
   \<and> length (filter isAtom (getAllNodes (snd (ingestSequence demoHost constructor [VString ''a'', VNumber ''2'', VString ''c''])))) = 3
   \<and> length (filter isWrapper (getAllNodes (snd (ingestSequence demoHost constructor [VString ''a'', VNumber ''2'', VString ''c''])))) = 3
   \<and> length (filter isComposite (getAllNodes (snd (ingestSequence demoHost constructor [VString ''a'', VNumber ''2'', VString ''c''])))) = 3
   \<and> length (filter isFragment (getAllNodes (snd (ingestSequence demoHost constructor [VString ''a'', VNumber ''2'', VString ''c''])))) = 6"
proof -
  have e: "state constructor = \<lparr> atomRegistry = [], fragmentRegistry = [], nodeRepository = [] \<rparr>"
    by (simp add: constructor_def)
  have ne: "[VString ''a'', VNumber ''2'', VString ''c''] \<noteq> []" by simp
  have ds: "distinct (map String [VString ''a'', VNumber ''2'', VString ''c''])" by code_simp
  have raw: "\<forall>item\<in>set [VString ''a'', VNumber ''2'', VString ''c'']. \<not> isURI (String item)" by code_simp
  have own: "\<forall>item\<in>set [VString ''a'', VNumber ''2'', VString ''c'']. ownKey (String item)"
    by (simp add: ownKey_def objectPrototypeNames_def)
  show ?thesis
    using ingestSequence_lattice_counts [OF uniqueUUIDs_demoHost e ne ds raw own]
      uniqueUUIDs_demoHost e ne ds raw own
    by (simp add: Let_def)
qed

end
